theory Spec2Isabelle
  imports Complex_Main
begin

section \<open>Numbers and parameters\<close>

text \<open>
  JavaScript numbers are IEEE 754 doubles.  In the depth profiler rounding decides what
  holds, so there every operation is rounded (section ``Double-precision arithmetic'').
  Elsewhere the numbers are modelled as real numbers: those claims are about finite
  parameters, and rounding of doubles (and of the \<open>Float32Array\<close> that holds UV
  coordinates) is idealised away.  On a finite number the guard \<open>x || 0\<close> replaces
  only the falsy value \<open>0\<close> by \<open>0\<close>, and \<open>x ?? d\<close> is \<open>x\<close>.
\<close>

definition or0 :: "real \<Rightarrow> real" where
  "or0 x = (if x = 0 then 0 else x)"

text \<open>
  The flat parameter record handed to every builder (\<open>PoolApp.poolParams\<close>).
  \<open>stepCount\<close> is an integer: the slider handler stores \<open>Math.floor(val)\<close>.
\<close>

record pool_params =
  pool_length :: real
  pool_width :: real
  shallow :: real
  deep :: real
  shallowFlat :: real
  deepFlat :: real
  stepCount :: int
  stepDepth :: real

definition STEP_LENGTH :: real where
  "STEP_LENGTH = 0.3"

definition STEP_TOP_OFFSET :: real where
  "STEP_TOP_OFFSET = 0.25"

section \<open>Double-precision arithmetic\<close>

text \<open>
  A finite double is a real number \<open>n * 2 ^ e\<close> with \<open>|n| < 2 ^ 53\<close>.  Each arithmetic
  operation of JavaScript returns the exact result rounded to the nearest double, ties
  to the even significand; \<open>fl\<close> is that rounding, and a decimal literal such as \<open>0.01\<close>
  denotes \<open>fl 0.01\<close>.  The exponent range is taken as unbounded: overflow to
  \<open>Infinity\<close> (beyond \<open>1.8e308\<close>) and subnormal numbers (below \<open>2.3e-308\<close>) are outside
  the model, as are \<open>NaN\<close> arguments.  Comparisons, \<open>Math.max\<close> and negation are exact.

  \<open>rne\<close> rounds a real number to the nearest integer, ties to even; \<open>ulp_exp x\<close> is the
  exponent of the last significant bit of the doubles in the binade of \<open>x\<close>.
\<close>

definition rne :: "real \<Rightarrow> int" where
  "rne y = (let f = \<lfloor>y\<rfloor>; r = y - of_int f
            in if r < 1 / 2 then f else if 1 / 2 < r then f + 1
               else if even f then f else f + 1)"

definition ulp_exp :: "real \<Rightarrow> int" where
  "ulp_exp x = \<lfloor>log 2 \<bar>x\<bar>\<rfloor> - 52"

definition fl :: "real \<Rightarrow> real" where
  "fl x = (if x = 0 then 0
           else sgn x * (of_int (rne (\<bar>x\<bar> / 2 powi ulp_exp x)) * 2 powi ulp_exp x))"

text \<open>The numbers a JavaScript variable can hold, and the unit roundoff \<open>2 ^ -53\<close>.\<close>

definition is_double :: "real \<Rightarrow> bool" where
  "is_double x = (fl x = x)"

definition roundoff :: real where
  "roundoff = 1 / 2 ^ 53"

section \<open>Depth profiler\<close>



text \<open>
  \<open>computeRectangleDepthAtX\<close> (pool.js lines 517--544), used by \<open>PoolBuilder.build\<close> and
  by \<open>previewUpdateDepths\<close>, with every operation rounded as JavaScript rounds it.
\<close>

definition computeRectangleDepthAtX ::
  "real \<Rightarrow> pool_params \<Rightarrow> real \<Rightarrow> real \<Rightarrow> real \<Rightarrow> real" where
  "computeRectangleDepthAtX worldX params axisStartX axisEndX originX =
     (let clampedShallow = max 0.5 (shallow params);
          clampedDeep = max clampedShallow (deep params);
          sFlat0 = or0 (shallowFlat params);
          dFlat0 = or0 (deepFlat params);
          fullLen = fl (axisEndX - originX);
          maxFlats = max 0 (fl (fullLen - fl 0.01));
          (sFlat, dFlat) =
            (if fl (sFlat0 + dFlat0) > maxFlats
             then (let scale = fl (maxFlats / fl (sFlat0 + dFlat0))
                   in (fl (sFlat0 * scale), fl (dFlat0 * scale)))
             else (sFlat0, dFlat0));
          slopeLen = max (fl 0.01) (fl (fl (fullLen - sFlat) - dFlat));
          dx = (if fl (worldX - originX) < 0 then 0 else fl (worldX - originX))
      in if dx \<le> sFlat then - clampedShallow
         else if dx \<ge> fl (fullLen - dFlat) then - clampedDeep
         else (let t = fl (fl (dx - sFlat) / slopeLen)
               in - fl (clampedShallow + fl (t * fl (clampedDeep - clampedShallow)))))"

text \<open>
  The floor loop of \<open>createRectanglePool\<close> (rectanglePool.js lines 48--94):
  \<open>rectangle_floor_originX\<close> is the \<open>originX\<close> it computes and stores, and
  \<open>rectangle_floor_z params worldX\<close> the depth it writes to the floor vertex whose x
  coordinate is \<open>worldX\<close>.
\<close>

definition rectangle_floor_originX :: "pool_params \<Rightarrow> real" where
  "rectangle_floor_originX params =
     (let axisStartWallX = fl (- pool_length params / 2);
          stepFootprintLen =
            (if stepCount params > 0 then fl (fl STEP_LENGTH * of_int (stepCount params)) else 0)
      in fl (axisStartWallX + stepFootprintLen))"

definition rectangle_floor_z :: "pool_params \<Rightarrow> real \<Rightarrow> real" where
  "rectangle_floor_z params worldX =
     (let clampedShallow = max 0.5 (shallow params);
          clampedDeep = max clampedShallow (deep params);
          axisEndX = fl (pool_length params / 2);
          originX = rectangle_floor_originX params;
          fullLen = fl (axisEndX - originX);
          sFlat0 = or0 (shallowFlat params);
          dFlat0 = or0 (deepFlat params);
          maxFlats = max 0 (fl (fullLen - fl 0.01));
          (sFlat, dFlat) =
            (if fl (sFlat0 + dFlat0) > maxFlats
             then (let scale = fl (maxFlats / fl (sFlat0 + dFlat0))
                   in (fl (sFlat0 * scale), fl (dFlat0 * scale)))
             else (sFlat0, dFlat0));
          slopeLen = max (fl 0.01) (fl (fl (fullLen - sFlat) - dFlat));
          dx = (if fl (worldX - originX) < 0 then 0 else fl (worldX - originX))
      in if dx \<le> sFlat then - clampedShallow
         else if dx \<ge> fl (fullLen - dFlat) then - clampedDeep
         else (let t = fl (fl (dx - sFlat) / slopeLen)
               in - fl (clampedShallow + fl (t * fl (clampedDeep - clampedShallow)))))"

text \<open>
  The profile in the words of the specification (section 4.3), evaluated in doubles:
  \<open>shallow = max(0.5, params.shallow)\<close>, \<open>deep = max(shallow, params.deep)\<close>,
  \<open>fullLen = axisEnd - originX\<close>; the flat runs are scaled down proportionally if their
  sum would exceed \<open>fullLen - 0.01\<close>; \<open>slopeLen = max(0.01, fullLen - sFlat - dFlat)\<close>;
  for \<open>dx = clamp(worldX - originX, 0, \<infinity>)\<close> the depth is \<open>-shallow\<close> if \<open>dx \<le> sFlat\<close>,
  \<open>-deep\<close> if \<open>dx \<ge> fullLen - dFlat\<close>, and else \<open>-(shallow + t (deep - shallow))\<close> with
  \<open>t = (dx - sFlat) / slopeLen\<close>.
\<close>

definition depthAt_spec ::
  "real \<Rightarrow> pool_params \<Rightarrow> real \<Rightarrow> real \<Rightarrow> real \<Rightarrow> real" where
  "depthAt_spec worldX params axisStart axisEnd originX =
     (let shallow' = max 0.5 (shallow params);
          deep' = max shallow' (deep params);
          fullLen = fl (axisEnd - originX);
          room = fl (fullLen - fl 0.01);
          total = fl (shallowFlat params + deepFlat params);
          sFlat = (if total > room then fl (shallowFlat params * fl (room / total))
                   else shallowFlat params);
          dFlat = (if total > room then fl (deepFlat params * fl (room / total))
                   else deepFlat params);
          slopeLen = max (fl 0.01) (fl (fl (fullLen - sFlat) - dFlat));
          dx = max 0 (fl (worldX - originX))
      in if dx \<le> sFlat then - shallow'
         else if dx \<ge> fl (fullLen - dFlat) then - deep'
         else - fl (shallow' + fl (fl (fl (dx - sFlat) / slopeLen) * fl (deep' - shallow'))))"

section \<open>Editable polygon\<close>

text \<open>
  \<open>THREE.Vector2\<close> is a pair of reals.  An edge carries its curvature flag and an
  optional control point (\<open>null\<close> is \<open>None\<close>).  The polygon object keeps the two
  parallel arrays, the vertex floor, the rectangle flag and, in place of the listener
  list, the number of change notifications emitted so far.
\<close>

type_synonym vec2 = "real \<times> real"

record edge =
  isCurved :: bool
  control :: "vec2 option"

record polygon =
  vertices :: "vec2 list"
  edges :: "edge list"
  minVertices :: nat
  isRectangular :: bool
  emitted :: nat

datatype js_error = TypeError

definition straight_edge :: edge where
  "straight_edge = \<lparr>isCurved = False, control = None\<rparr>"

text \<open>The constructor: one straight edge per point, \<open>minVertices = 3\<close>.\<close>

definition new_polygon :: "vec2 list \<Rightarrow> polygon" where
  "new_polygon points =
     \<lparr>vertices = points, edges = map (\<lambda>_. straight_edge) points,
      minVertices = 3, isRectangular = False, emitted = 0\<rparr>"

definition emitChange :: "polygon \<Rightarrow> polygon" where
  "emitChange p = p\<lparr>emitted := Suc (emitted p)\<rparr>"

text \<open>
  Array access \<open>xs[i]\<close> yields \<open>undefined\<close> outside \<open>0 .. length - 1\<close>.
  \<open>Array.prototype.splice(start, deleteCount, ...items)\<close> clamps its start index:
  a negative start counts from the end, a start beyond the end is the end.
\<close>

definition js_nth :: "'a list \<Rightarrow> int \<Rightarrow> 'a option" where
  "js_nth xs i = (if 0 \<le> i \<and> i < int (length xs) then Some (xs ! nat i) else None)"

definition splice_start :: "int \<Rightarrow> nat \<Rightarrow> nat" where
  "splice_start i n = (if i < 0 then nat (max (int n + i) 0) else min (nat i) n)"

definition splice_delete1 :: "'a list \<Rightarrow> int \<Rightarrow> 'a list" where
  "splice_delete1 xs i = (let s = splice_start i (length xs) in take s xs @ drop (Suc s) xs)"

definition splice_insert :: "'a list \<Rightarrow> int \<Rightarrow> 'a \<Rightarrow> 'a list" where
  "splice_insert xs i v = (let s = splice_start i (length xs) in take s xs @ v # drop s xs)"

definition nextIndex :: "polygon \<Rightarrow> int \<Rightarrow> int" where
  "nextIndex p i = (i + 1) mod int (length (vertices p))"

subsection \<open>Vertex operations\<close>

definition moveVertex :: "polygon \<Rightarrow> int \<Rightarrow> vec2 \<Rightarrow> polygon" where
  "moveVertex p index newPos =
     (case js_nth (vertices p) index of
        None \<Rightarrow> p
      | Some _ \<Rightarrow> emitChange (p\<lparr>vertices := (vertices p)[nat index := newPos]\<rparr>))"

definition addVertexAtEdge :: "polygon \<Rightarrow> int \<Rightarrow> vec2 \<Rightarrow> int \<times> polygon" where
  "addVertexAtEdge p edgeIndex newPos =
     (let insertIndex = edgeIndex + 1
      in (insertIndex,
          emitChange (p\<lparr>vertices := splice_insert (vertices p) insertIndex newPos,
                        edges := splice_insert (edges p) insertIndex straight_edge\<rparr>)))"

text \<open>\<open>deleteVertex\<close> compares the vertex count with \<open>this.minVertices || 3\<close>.\<close>

definition deleteVertex :: "polygon \<Rightarrow> int \<Rightarrow> bool \<times> polygon" where
  "deleteVertex p index =
     (if length (vertices p) \<le> (if minVertices p = 0 then 3 else minVertices p)
      then (False, p)
      else (True,
            emitChange (p\<lparr>vertices := splice_delete1 (vertices p) index,
                          edges := splice_delete1 (edges p) index\<rparr>)))"

subsection \<open>Curves\<close>

definition hypot :: "real \<Rightarrow> real \<Rightarrow> real" where
  "hypot a b = sqrt (a * a + b * b)"

text \<open>\<open>Vector2.normalize\<close> divides by \<open>length() || 1\<close>.\<close>

definition normalize2 :: "vec2 \<Rightarrow> vec2" where
  "normalize2 v =
     (let l = hypot (fst v) (snd v); l' = (if l = 0 then 1 else l)
      in (fst v / l', snd v / l'))"

text \<open>
  \<open>toggleEdgeCurved\<close> reads the two end points of the edge without a guard; when one of
  them is missing, \<open>addVectors\<close> dereferences \<open>undefined\<close> and a \<open>TypeError\<close> escapes.
\<close>

definition toggleEdgeCurved :: "polygon \<Rightarrow> int \<Rightarrow> js_error + polygon" where
  "toggleEdgeCurved p edgeIndex =
     (case js_nth (edges p) edgeIndex of
        None \<Rightarrow> Inr p
      | Some e \<Rightarrow>
          if \<not> isCurved e then
            (case (js_nth (vertices p) edgeIndex,
                   if vertices p = [] then None
                   else js_nth (vertices p) (nextIndex p edgeIndex)) of
               (Some v1, Some v2) \<Rightarrow>
                 (let mid = ((fst v1 + fst v2) * 0.5, (snd v1 + snd v2) * 0.5);
                      dir = (fst v2 - fst v1, snd v2 - snd v1);
                      perp = normalize2 (- snd dir, fst dir);
                      offsetAmount = hypot (fst dir) (snd dir) * 0.2;
                      ctrl = (fst mid + fst perp * offsetAmount,
                              snd mid + snd perp * offsetAmount)
                  in Inr (emitChange
                       (p\<lparr>edges := (edges p)[nat edgeIndex :=
                                       e\<lparr>isCurved := True, control := Some ctrl\<rparr>]\<rparr>)))
             | _ \<Rightarrow> Inl TypeError)
          else
            Inr (emitChange
              (p\<lparr>edges := (edges p)[nat edgeIndex :=
                              e\<lparr>isCurved := False, control := None\<rparr>]\<rparr>)))"

definition moveCurveControl :: "polygon \<Rightarrow> int \<Rightarrow> vec2 \<Rightarrow> polygon" where
  "moveCurveControl p edgeIndex newPos =
     (case js_nth (edges p) edgeIndex of
        None \<Rightarrow> p
      | Some e \<Rightarrow>
          (let e' = (if \<not> isCurved e \<or> control e = None
                     then e\<lparr>isCurved := True, control := Some newPos\<rparr>
                     else e\<lparr>control := Some newPos\<rparr>)
           in emitChange (p\<lparr>edges := (edges p)[nat edgeIndex := e']\<rparr>)))"

subsection \<open>Presets and rescaling\<close>

definition setFromRectangle :: "polygon \<Rightarrow> real \<Rightarrow> real \<Rightarrow> polygon" where
  "setFromRectangle p len wid =
     emitChange
       (p\<lparr>vertices := [(- len / 2, - wid / 2), (len / 2, - wid / 2),
                        (len / 2, wid / 2), (- len / 2, wid / 2)],
          edges := [straight_edge, straight_edge, straight_edge, straight_edge],
          isRectangular := True,
          minVertices := 4\<rparr>)"

text \<open>\<open>setFromOval(length, width, segments = 24)\<close>; the loop \<open>for (i = 0; i < segments; i++)\<close>
  runs \<open>segments\<close> times for an integer count.\<close>

definition setFromOval :: "polygon \<Rightarrow> real \<Rightarrow> real \<Rightarrow> nat \<Rightarrow> polygon" where
  "setFromOval p len wid segments =
     (let pts = map (\<lambda>i. (let a = (real i / real segments) * pi * 2
                           in (cos a * len / 2, sin a * wid / 2)))
                    [0..<segments]
      in emitChange
           (p\<lparr>vertices := pts,
              edges := map (\<lambda>_. straight_edge) pts,
              isRectangular := False,
              minVertices := 3\<rparr>))"

text \<open>
  \<open>rescaleTo\<close>: the bounding box is folded from \<open>(+Infinity, -Infinity)\<close>; on an empty
  vertex array the extent is \<open>-Infinity\<close>, which is \<open>\<le> 1e-6\<close>, so the call returns
  without effect.
\<close>

definition rescaleTo :: "polygon \<Rightarrow> real \<Rightarrow> real \<Rightarrow> polygon" where
  "rescaleTo p targetLength targetWidth =
     (if isRectangular p then setFromRectangle p targetLength targetWidth
      else (case vertices p of
              [] \<Rightarrow> p
            | v # vs \<Rightarrow>
               (let minX = foldl min (fst v) (map fst vs);
                    maxX = foldl max (fst v) (map fst vs);
                    minY = foldl min (snd v) (map snd vs);
                    maxY = foldl max (snd v) (map snd vs);
                    currentLength = maxX - minX;
                    currentWidth = maxY - minY
                in if currentLength \<le> 1 / 1000000 \<or> currentWidth \<le> 1 / 1000000 then p
                   else (let centerX = (minX + maxX) / 2;
                             centerY = (minY + maxY) / 2;
                             scaleX = targetLength / currentLength;
                             scaleY = targetWidth / currentWidth
                         in emitChange
                              (p\<lparr>vertices :=
                                   map (\<lambda>w. (centerX + (fst w - centerX) * scaleX,
                                             centerY + (snd w - centerY) * scaleY))
                                       (vertices p)\<rparr>)))))"

text \<open>The operations as values, so that an edit session is a list of them.\<close>

datatype poly_op =
    MoveVertex int vec2
  | AddVertexAtEdge int vec2
  | DeleteVertex int
  | ToggleEdgeCurved int
  | MoveCurveControl int vec2
  | RescaleTo real real
  | SetFromRectangle real real
  | SetFromOval real real nat

fun apply_op :: "polygon \<Rightarrow> poly_op \<Rightarrow> js_error + polygon" where
  "apply_op p (MoveVertex i pos) = Inr (moveVertex p i pos)"
| "apply_op p (AddVertexAtEdge i pos) = Inr (snd (addVertexAtEdge p i pos))"
| "apply_op p (DeleteVertex i) = Inr (snd (deleteVertex p i))"
| "apply_op p (ToggleEdgeCurved i) = toggleEdgeCurved p i"
| "apply_op p (MoveCurveControl i pos) = Inr (moveCurveControl p i pos)"
| "apply_op p (RescaleTo l w) = Inr (rescaleTo p l w)"
| "apply_op p (SetFromRectangle l w) = Inr (setFromRectangle p l w)"
| "apply_op p (SetFromOval l w n) = Inr (setFromOval p l w n)"

text \<open>An oval preset needs at least three segments to be a polygon; the default is 24.\<close>

fun op_admissible :: "poly_op \<Rightarrow> bool" where
  "op_admissible (SetFromOval l w n) = (3 \<le> n)"
| "op_admissible _ = True"

text \<open>The data-model invariant of the specification (section 3).\<close>

definition poly_inv :: "polygon \<Rightarrow> bool" where
  "poly_inv p \<longleftrightarrow>
     length (edges p) = length (vertices p) \<and> minVertices p \<le> length (vertices p)"

subsection \<open>Shape conversion\<close>

definition cross3 :: "vec2 \<Rightarrow> vec2 \<Rightarrow> vec2 \<Rightarrow> real" where
  "cross3 p0 p1 p2 =
     (fst p1 - fst p0) * (snd p2 - snd p1) - (snd p1 - snd p0) * (fst p2 - fst p1)"

definition dedupStep :: "real \<Rightarrow> vec2 list \<Rightarrow> vec2 \<Rightarrow> vec2 list" where
  "dedupStep eps out p =
     (if out = [] then [p]
      else if hypot (fst p - fst (last out)) (snd p - snd (last out)) > eps then out @ [p]
      else out)"

text \<open>\<open>_getCleanVertices(eps = 1e-5)\<close>; all coordinates are finite here, so no vertex is
  skipped by the \<open>isFinite\<close> test.\<close>

definition getCleanVertices :: "real \<Rightarrow> vec2 list \<Rightarrow> vec2 list" where
  "getCleanVertices eps vs =
     (let out0 = foldl (dedupStep eps) [] vs;
          out = (if length out0 > 2 \<and>
                    hypot (fst (hd out0) - fst (last out0)) (snd (hd out0) - snd (last out0)) \<le> eps
                 then butlast out0 else out0);
          n = length out
      in if n > 3
         then (let cleaned =
                     map (\<lambda>i. out ! i)
                       (filter (\<lambda>i. \<bar>cross3 (out ! ((i + n - 1) mod n)) (out ! i)
                                            (out ! ((i + 1) mod n))\<bar> > eps)
                               [0..<n])
               in if length cleaned \<ge> 3 then cleaned else out)
         else out)"

definition signedArea :: "vec2 list \<Rightarrow> real" where
  "signedArea v =
     0.5 * (\<Sum>i\<leftarrow>[0..<length v].
              fst (v ! i) * snd (v ! ((i + 1) mod length v))
                - fst (v ! ((i + 1) mod length v)) * snd (v ! i))"

definition centroid :: "vec2 list \<Rightarrow> vec2" where
  "centroid v = (sum_list (map fst v) / real (length v), sum_list (map snd v) / real (length v))"

definition orient :: "vec2 \<Rightarrow> vec2 \<Rightarrow> vec2 \<Rightarrow> real" where
  "orient p q r = (fst q - fst p) * (snd r - snd p) - (snd q - snd p) * (fst r - fst p)"

definition segIntersects :: "vec2 \<Rightarrow> vec2 \<Rightarrow> vec2 \<Rightarrow> vec2 \<Rightarrow> bool" where
  "segIntersects a b c d =
     (let o1 = orient a b c; o2 = orient a b d; o3 = orient c d a; o4 = orient c d b
      in o1 * o2 < 0 \<and> o3 * o4 < 0)"

definition isSelfIntersecting :: "vec2 list \<Rightarrow> bool" where
  "isSelfIntersecting v =
     (let n = length v
      in if n < 4 then False
         else list_ex (\<lambda>i.
                list_ex (\<lambda>j.
                   \<not> (\<bar>int i - int j\<bar> \<le> 1) \<and> \<not> (i = 0 \<and> j = n - 1) \<and>
                   segIntersects (v ! i) (v ! ((i + 1) mod n)) (v ! j) (v ! ((j + 1) mod n)))
                 [i + 1..<n])
              [0..<n])"

text \<open>\<open>Math.atan2(y, x)\<close> on finite arguments, with values in \<open>(-\<pi>, \<pi>]\<close>.\<close>

definition atan2 :: "real \<Rightarrow> real \<Rightarrow> real" where
  "atan2 y x =
     (if x > 0 then arctan (y / x)
      else if x < 0 then (if y \<ge> 0 then arctan (y / x) + pi else arctan (y / x) - pi)
      else if y > 0 then pi / 2
      else if y < 0 then - pi / 2
      else 0)"

text \<open>
  \<open>toShape\<close>; \<open>enforceCCW\<close> is its statement
  \<open>if (this._signedArea(v) < 0) v.reverse()\<close>, which occurs twice.  The returned \<open>THREE.Shape\<close> is represented by the points of its path:
  \<open>moveTo(v[0])\<close>, \<open>lineTo(v[1])\<close>, \dots, \<open>lineTo(v[n-1])\<close>, \<open>lineTo(v[0])\<close>; the
  empty shape is the empty list.  \<open>Array.prototype.sort\<close> is stable and the comparator
  orders by the angle key, which is what \<open>sort_key\<close> computes.
\<close>

definition enforceCCW :: "vec2 list \<Rightarrow> vec2 list" where
  "enforceCCW v = (if signedArea v < 0 then rev v else v)"

definition toShape :: "polygon \<Rightarrow> vec2 list" where
  "toShape p =
     (let verts = getCleanVertices (1 / 100000) (vertices p)
      in if length verts < 3 then []
         else (let v0 = enforceCCW verts;
                   v = (if isSelfIntersecting v0
                        then (let c = centroid v0
                              in enforceCCW
                                   (sort_key (\<lambda>a. atan2 (snd a - snd c) (fst a - fst c)) v0))
                        else v0)
               in v @ [hd v]))"

text \<open>The vertex ring of a shape: its path without the closing point.\<close>

definition shape_ring :: "vec2 list \<Rightarrow> vec2 list" where
  "shape_ring s = butlast s"

subsection \<open>Notions for the analysis of the angle sort\<close>

text \<open>
  The comparator of the fallback sort orders the vertices by \<open>key c\<close>, the polar angle
  about the centroid \<open>c\<close>; \<open>radius c\<close> is the distance from \<open>c\<close>.  \<open>side c d x\<close> tells
  on which side of the line through \<open>c\<close> with direction \<open>d\<close> the point \<open>x\<close> lies.
  \<open>ring_edge v i\<close> is the \<open>i\<close>-th edge of the closed ring \<open>v\<close>, as the self-intersection
  test indexes it, and a ring is \<open>crossing_free\<close> when no two of its edges cross properly.
\<close>

definition key :: "vec2 \<Rightarrow> vec2 \<Rightarrow> real" where
  "key c p = atan2 (snd p - snd c) (fst p - fst c)"

definition radius :: "vec2 \<Rightarrow> vec2 \<Rightarrow> real" where
  "radius c p = hypot (fst p - fst c) (snd p - snd c)"

definition side :: "vec2 \<Rightarrow> vec2 \<Rightarrow> vec2 \<Rightarrow> real" where
  "side c d x = fst d * (snd x - snd c) - snd d * (fst x - fst c)"

definition ring_edge :: "vec2 list \<Rightarrow> nat \<Rightarrow> vec2 \<times> vec2" where
  "ring_edge v i = (v ! i, v ! ((i + 1) mod length v))"

definition crossing_free :: "vec2 list \<Rightarrow> bool" where
  "crossing_free v =
     (\<forall>i < length v. \<forall>j < length v.
        \<not> segIntersects (fst (ring_edge v i)) (snd (ring_edge v i))
                        (fst (ring_edge v j)) (snd (ring_edge v j)))"

section \<open>Pool assembly: steps and walls\<close>

text \<open>
  A mesh over a \<open>THREE.BoxGeometry(width, height, depth)\<close>: the box is centred on the
  local origin, so its local extent along z is \<open>[-depth/2, depth/2]\<close>.  A fresh mesh has
  scale \<open>(1, 1, 1)\<close>.  \<open>baseHeight\<close> is the entry of \<open>userData\<close> written by the wall
  builders.
\<close>

record mesh_box =
  geo_x :: real
  geo_y :: real
  geo_z :: real
  pos_x :: real
  pos_y :: real
  pos_z :: real
  scale_x :: real
  scale_y :: real
  scale_z :: real
  baseHeight :: "real option"

definition new_box :: "real \<Rightarrow> real \<Rightarrow> real \<Rightarrow> real \<Rightarrow> real \<Rightarrow> real \<Rightarrow> real option \<Rightarrow> mesh_box" where
  "new_box w h d x y z bh =
     \<lparr>geo_x = w, geo_y = h, geo_z = d, pos_x = x, pos_y = y, pos_z = z,
      scale_x = 1, scale_y = 1, scale_z = 1, baseHeight = bh\<rparr>"

definition box_top :: "mesh_box \<Rightarrow> real" where
  "box_top b = pos_z b + scale_z b * (geo_z b / 2)"

definition box_bottom :: "mesh_box \<Rightarrow> real" where
  "box_bottom b = pos_z b + scale_z b * (- geo_z b / 2)"

definition box_height :: "mesh_box \<Rightarrow> real" where
  "box_height b = box_top b - box_bottom b"

text \<open>
  The continuous wall of the oval and kidney builders: an \<open>ExtrudeGeometry\<close> of the ring
  between the offset outline and the outline, extruded from local \<open>z = 0\<close> to
  \<open>z = depth\<close> and then translated along z; the mesh itself stays at \<open>z = 0\<close>.
\<close>

record ring_wall =
  ring_depth :: real
  ring_translate_z :: real
  ring_baseHeight :: "real option"

definition ring_top :: "ring_wall \<Rightarrow> real" where
  "ring_top r = ring_translate_z r + ring_depth r"

definition ring_bottom :: "ring_wall \<Rightarrow> real" where
  "ring_bottom r = ring_translate_z r"

definition ring_height :: "ring_wall \<Rightarrow> real" where
  "ring_height r = ring_top r - ring_bottom r"

subsection \<open>Steps\<close>

text \<open>
  The body of the step loop, shared by all five builders
  (\<open>for (let s = 0; s < stepCount; s++)\<close>): \<open>stepDepth\<close>, \<open>stepCount\<close> and
  \<open>shallowDepth\<close> are the builder's local variables of these names, \<open>x0\<close> the x
  coordinate of the start wall, \<open>y0\<close> and \<open>width\<close> the y position and width of the
  step boxes.
\<close>

definition step_box ::
  "real \<Rightarrow> real \<Rightarrow> real \<Rightarrow> real \<Rightarrow> real \<Rightarrow> int \<Rightarrow> int \<Rightarrow> mesh_box" where
  "step_box stepDepth' shallowDepth x0 y0 width stepCount' s =
     (let h = (if s = stepCount' - 1
               then (let used = stepDepth' * of_int (stepCount' - 1);
                         h1 = shallowDepth - STEP_TOP_OFFSET - used
                     in if h1 < 0.05 then 0.05 else h1)
               else stepDepth');
          x = x0 + STEP_LENGTH * (of_int s + 0.5);
          z = (if s = stepCount' - 1
               then - (shallowDepth - h / 2)
               else - (STEP_TOP_OFFSET + stepDepth' * (of_int s + 0.5)))
      in new_box STEP_LENGTH width h x y0 z None)"

definition step_run ::
  "real \<Rightarrow> real \<Rightarrow> real \<Rightarrow> real \<Rightarrow> real \<Rightarrow> int \<Rightarrow> mesh_box list" where
  "step_run stepDepth' shallowDepth x0 y0 width stepCount' =
     (if stepCount' > 0
      then map (step_box stepDepth' shallowDepth x0 y0 width stepCount') [0..stepCount' - 1]
      else [])"

text \<open>\<open>createRectanglePool\<close>, lines 110--141.\<close>

definition rectangle_steps :: "pool_params \<Rightarrow> mesh_box list" where
  "rectangle_steps params =
     step_run (stepDepth params) (max 0.5 (shallow params))
       (- pool_length params / 2) 0 (pool_width params) (stepCount params)"

text \<open>\<open>createOvalPool\<close>, \<open>createLShapePool\<close> and \<open>createKidneyPool\<close>: the steps start at
  the bounding box of the outline.  The oval and L-shape builders fall back to
  \<open>0.6 * width\<close> for a step width below 5 cm, the kidney builder clamps it.\<close>

definition oval_stepWidth :: "pool_params \<Rightarrow> real \<Rightarrow> real \<Rightarrow> real" where
  "oval_stepWidth params wallMinY wallMaxY =
     (let stepWidth = wallMaxY - wallMinY
      in if stepWidth < 0.05 then pool_width params * 0.6 else stepWidth)"

definition kidney_stepWidth :: "real \<Rightarrow> real \<Rightarrow> real" where
  "kidney_stepWidth wallMinY wallMaxY = max 0.05 (wallMaxY - wallMinY)"

definition bbox_steps :: "pool_params \<Rightarrow> real \<Rightarrow> real \<Rightarrow> mesh_box list" where
  "bbox_steps params wallMinX stepWidth =
     step_run (stepDepth params) (max 0.5 (shallow params))
       wallMinX 0 stepWidth (stepCount params)"

text \<open>\<open>PoolBuilder.build\<close> (freeform polygon), lines 704--791:
  \<open>stepCount = Math.max(0, params.stepCount | 0)\<close> and
  \<open>stepDepth = Math.max(0.01, params.stepDepth ?? 0.2)\<close>.  The operator \<open>| 0\<close> is the
  conversion to a signed 32-bit integer.\<close>

definition to_int32 :: "int \<Rightarrow> int" where
  "to_int32 n = (n + 2147483648) mod 4294967296 - 2147483648"

definition builder_stepCount :: "pool_params \<Rightarrow> int" where
  "builder_stepCount params = max 0 (to_int32 (stepCount params))"

definition builder_stepDepth :: "pool_params \<Rightarrow> real" where
  "builder_stepDepth params = max 0.01 (stepDepth params)"

definition builder_steps :: "pool_params \<Rightarrow> real \<Rightarrow> real \<Rightarrow> real \<Rightarrow> real \<Rightarrow> mesh_box list" where
  "builder_steps params cx cy bbLen bbWid =
     (let axisStartWallX = cx - bbLen / 2
      in step_run (builder_stepDepth params) (max 0.5 (shallow params))
           axisStartWallX cy bbWid (builder_stepCount params))"

subsection \<open>Walls\<close>

text \<open>\<open>createRectanglePool\<close>, lines 163--206: south, north, east, west.\<close>

definition rectangle_walls :: "pool_params \<Rightarrow> mesh_box list" where
  "rectangle_walls params =
     (let len = pool_length params;
          wid = pool_width params;
          clampedShallow = max 0.5 (shallow params);
          clampedDeep = max clampedShallow (deep params);
          wallThickness = 0.2
      in [new_box len wallThickness clampedDeep
            0 (- wid / 2 - wallThickness / 2) (- clampedDeep / 2) (Some clampedDeep),
          new_box len wallThickness clampedDeep
            0 (wid / 2 + wallThickness / 2) (- clampedDeep / 2) (Some clampedDeep),
          new_box wallThickness wid clampedDeep
            (len / 2 + wallThickness / 2) 0 (- clampedDeep / 2) (Some clampedDeep),
          new_box wallThickness wid clampedDeep
            (- len / 2 - wallThickness / 2) 0 (- clampedDeep / 2) (Some clampedDeep)])"

text \<open>\<open>createLShapePool\<close>: one box per border segment (wrapping), segments shorter than
  \<open>1e-4\<close> skipped.\<close>

definition lshape_borderPts :: "pool_params \<Rightarrow> vec2 list" where
  "lshape_borderPts params =
     (let halfL = pool_length params / 2;
          halfW = pool_width params / 2;
          notchL = max 0.6 (pool_length params * 0.35);
          notchW = max 0.6 (pool_width params * 0.35)
      in [(- halfL, - halfW), (halfL, - halfW), (halfL, halfW),
          (halfL - notchL, halfW), (halfL - notchL, halfW - notchW),
          (- halfL, halfW - notchW)])"

definition lshape_walls :: "pool_params \<Rightarrow> mesh_box list" where
  "lshape_walls params =
     (let borderPts = lshape_borderPts params;
          clampedShallow = max 0.5 (shallow params);
          clampedDeep = max clampedShallow (deep params);
          wallThickness = 0.2
      in concat (map (\<lambda>i.
           (let p1 = borderPts ! i;
                p2 = borderPts ! ((i + 1) mod length borderPts);
                dx = fst p2 - fst p1;
                dy = snd p2 - snd p1;
                len = hypot dx dy
            in if len < 1 / 10000 then []
               else [new_box len wallThickness clampedDeep
                       ((fst p1 + fst p2) / 2) ((snd p1 + snd p2) / 2) (- clampedDeep / 2)
                       (Some clampedDeep)]))
           [0..<length borderPts]))"

text \<open>\<open>createOvalPool\<close> (no \<open>baseHeight\<close> entry) and \<open>createKidneyPool\<close>.\<close>

definition oval_wall :: "pool_params \<Rightarrow> ring_wall" where
  "oval_wall params =
     (let clampedShallow = max 0.5 (shallow params);
          clampedDeep = max clampedShallow (deep params);
          wallDepth = clampedDeep
      in \<lparr>ring_depth = wallDepth, ring_translate_z = - wallDepth, ring_baseHeight = None\<rparr>)"

definition kidney_wall :: "pool_params \<Rightarrow> ring_wall" where
  "kidney_wall params =
     (let shallowZ = max 0.5 (shallow params);
          deepZ = max shallowZ (deep params)
      in \<lparr>ring_depth = deepZ, ring_translate_z = - deepZ, ring_baseHeight = Some deepZ\<rparr>)"

text \<open>\<open>PoolBuilder.build\<close>, lines 797--827: one box per segment of the sampled perimeter
  \<open>perimeter2D\<close>, segments shorter than \<open>1e-6\<close> skipped.  The rotation about z, which
  does not move the box along z, is not recorded.\<close>

definition builder_walls :: "pool_params \<Rightarrow> vec2 list \<Rightarrow> mesh_box list" where
  "builder_walls params perimeter2D =
     (let wallHeight = max (deep params) (shallow params);
          wallThickness = 0.05
      in concat (map (\<lambda>i.
           (let p1 = perimeter2D ! i;
                p2 = perimeter2D ! (i + 1);
                len = hypot (fst p1 - fst p2) (snd p1 - snd p2)
            in if len < 1 / 1000000 then []
               else [new_box len wallThickness wallHeight
                       ((fst p1 + fst p2) * 0.5) ((snd p1 + snd p2) * 0.5) (- wallHeight / 2)
                       (Some wallHeight)]))
           [0..<length perimeter2D - 1]))"

section \<open>Step chain-push\<close>

text \<open>
  The input handler of the step-extension slider (\<open>PoolApp.setupStepExtensionSlider\<close>).
  \<open>steps\<close> is the list of step meshes in traversal order and \<open>sel\<close> the position of the
  selected step in it; a selection that is no longer part of the group (\<open>sel\<close> beyond
  the list) leaves the group's steps unscaled.  The bounding box of a box geometry spans
  \<open>[-geo_x/2, geo_x/2]\<close>.
\<close>

definition bbox_len_x :: "mesh_box \<Rightarrow> real" where
  "bbox_len_x s = geo_x s / 2 - (- geo_x s / 2)"

definition run_length :: "mesh_box \<Rightarrow> real" where
  "run_length s = bbox_len_x s * scale_x s"

definition left_edge :: "mesh_box \<Rightarrow> real" where
  "left_edge s = pos_x s - run_length s * 0.5"

definition right_edge :: "mesh_box \<Rightarrow> real" where
  "right_edge s = pos_x s + run_length s * 0.5"

text \<open>The running minimum starts at \<open>Infinity\<close>, which is \<open>None\<close> here.\<close>

definition minEdgeStep :: "real option \<Rightarrow> mesh_box \<Rightarrow> real option" where
  "minEdgeStep m s =
     (case m of
        None \<Rightarrow> Some (left_edge s)
      | Some e \<Rightarrow> if left_edge s < e then Some (left_edge s) else Some e)"

definition minEdgeX :: "mesh_box list \<Rightarrow> real option" where
  "minEdgeX steps = foldl minEdgeStep None steps"

fun chain :: "real \<Rightarrow> mesh_box list \<Rightarrow> mesh_box list \<times> real" where
  "chain runX [] = ([], runX)"
| "chain runX (s # ss) =
     (let len = run_length s;
          centerX = runX + len * 0.5;
          r = chain (runX + len) ss
      in (s\<lparr>pos_x := centerX\<rparr> # fst r, snd r))"

definition rescale_selected :: "real \<Rightarrow> nat \<Rightarrow> mesh_box list \<Rightarrow> mesh_box list" where
  "rescale_selected val sel steps =
     (if sel < length steps
      then (let selBaseLength0 = bbox_len_x (steps ! sel);
                selBaseLength = (if selBaseLength0 \<le> 0 then 0.3 else selBaseLength0);
                newScaleX = val / selBaseLength
            in steps[sel := (steps ! sel)\<lparr>scale_x := newScaleX\<rparr>])
      else steps)"

text \<open>The result is the re-chained array (sorted by the x position the steps had) and
  the final \<open>runX\<close>; \<open>None\<close> stands for the early returns.\<close>

definition stepExtension :: "real \<Rightarrow> nat \<Rightarrow> mesh_box list \<Rightarrow> (mesh_box list \<times> real) option" where
  "stepExtension val sel steps =
     (if steps = [] then None
      else (let steps1 = rescale_selected val sel steps
            in case minEdgeX steps1 of
                 None \<Rightarrow> None
               | Some runX \<Rightarrow> Some (chain runX (sort_key pos_x steps1))))"

section \<open>Tiling UVs and wall raise\<close>

type_synonym vec3 = "real \<times> real \<times> real"

definition x3 :: "vec3 \<Rightarrow> real" where "x3 v = fst v"
definition y3 :: "vec3 \<Rightarrow> real" where "y3 v = fst (snd v)"
definition z3 :: "vec3 \<Rightarrow> real" where "z3 v = snd (snd v)"

text \<open>
  A mesh as \<open>updateScaledBoxTilingUVs\<close> sees it: the position and normal attribute of
  each vertex, the transform, the role flags and wall entries of \<open>userData\<close>, and
  \<open>geometry.parameters.depth\<close>.
\<close>

record mesh =
  geo :: "(vec3 \<times> vec3) list"
  m_position :: vec3
  m_scale :: vec3
  m_rotation_z :: real
  isWall :: bool
  isStep :: bool
  isFloor :: bool
  isRiser :: bool
  forceVerticalUV :: bool
  m_baseHeight :: "real option"
  geo_depth :: "real option"
  currentHeight :: "real option"
  extraHeight :: "real option"

record uv_origins =
  stepUVOriginX :: real
  stepUVOriginZ :: real
  floorUVOrigin :: vec2

definition vertexUV :: "real \<Rightarrow> uv_origins \<Rightarrow> mesh \<Rightarrow> vec3 \<times> vec3 \<Rightarrow> real \<times> real" where
  "vertexUV tile g m vn =
     (let stepOriginX = stepUVOriginX g;
          stepOriginZ = stepUVOriginZ g;
          floorOrigin = floorUVOrigin g;
          sx = x3 (m_scale m); sy = y3 (m_scale m); sz = z3 (m_scale m);
          lx = x3 (fst vn) * sx; ly = y3 (fst vn) * sy; lz = z3 (fst vn) * sz;
          ax = \<bar>x3 (snd vn)\<bar>; ay = \<bar>y3 (snd vn)\<bar>; az = \<bar>z3 (snd vn)\<bar>;
          px = or0 (x3 (m_position m)); py = or0 (y3 (m_position m));
          pz = or0 (z3 (m_position m))
      in if forceVerticalUV m \<or> isRiser m then
           (if ax \<ge> ay \<and> ax \<ge> az then
              ((ly + py - snd floorOrigin) / tile, (lz + pz - stepOriginZ) / tile)
            else if ay \<ge> ax \<and> ay \<ge> az then
              ((lx + px - stepOriginX) / tile, (lz + pz - stepOriginZ) / tile)
            else
              ((lx + px - stepOriginX) / tile, (ly + py - snd floorOrigin) / tile))
         else if isStep m \<and> az \<ge> ax \<and> az \<ge> ay then
           ((lx + px - stepOriginX) / tile, (ly + py - snd floorOrigin) / tile)
         else if isFloor m \<and> az \<ge> ax \<and> az \<ge> ay then
           ((lx + px - fst floorOrigin) / tile, (ly + py - snd floorOrigin) / tile)
         else if isWall m then
           (if ax \<ge> ay \<and> ax \<ge> az then
              ((ly + py - snd floorOrigin) / tile, (lz + pz) / tile)
            else
              ((lx + px - fst floorOrigin) / tile, (lz + pz) / tile))
         else
           (if az \<ge> ax \<and> az \<ge> ay then ((lx + px) / tile, (ly + py) / tile)
            else if ay \<ge> ax \<and> ay \<ge> az then ((lx + px) / tile, (lz + pz) / tile)
            else ((ly + py) / tile, (lz + pz) / tile)))"

text \<open>The new \<open>uv\<close> attribute, one pair per vertex; \<open>tile = this.tileSize || 0.3\<close>.\<close>

definition updateScaledBoxTilingUVs :: "real \<Rightarrow> uv_origins \<Rightarrow> mesh \<Rightarrow> (real \<times> real) list" where
  "updateScaledBoxTilingUVs tileSize g m =
     (let tile = (if tileSize = 0 then 0.3 else tileSize)
      in map (vertexUV tile g m) (geo m))"

text \<open>The input handler of the wall-raise slider, up to the coping handling.\<close>

definition wallRaise :: "real \<Rightarrow> mesh \<Rightarrow> mesh" where
  "wallRaise extra wall =
     (let fallback = (case geo_depth wall of
                        Some d \<Rightarrow> if d > 0 then d else 1
                      | None \<Rightarrow> 1);
          baseHeight' = (case m_baseHeight wall of
                          Some b \<Rightarrow> if b \<le> 0 then fallback else b
                        | None \<Rightarrow> fallback);
          newHeight = baseHeight' + extra;
          scaleZ = newHeight / baseHeight'
      in wall\<lparr>m_scale := (x3 (m_scale wall), y3 (m_scale wall), scaleZ),
              m_position := (x3 (m_position wall), y3 (m_position wall),
                             - (baseHeight' / 2) + extra / 2),
              m_baseHeight := Some baseHeight',
              currentHeight := Some newHeight,
              extraHeight := Some extra\<rparr>)"

text \<open>
  World position of a vertex of a mesh whose parent sits at the origin
  (\<open>group.position.set(0, 0, 0)\<close>): scale, then rotation about z, then translation.
\<close>

definition world_pos :: "mesh \<Rightarrow> vec3 \<Rightarrow> vec3" where
  "world_pos m v =
     (let lx = x3 v * x3 (m_scale m);
          ly = y3 v * y3 (m_scale m);
          lz = z3 v * z3 (m_scale m);
          r = m_rotation_z m
      in (cos r * lx - sin r * ly + x3 (m_position m),
          sin r * lx + cos r * ly + y3 (m_position m),
          lz + z3 (m_position m)))"

section \<open>Example inputs\<close>

text \<open>The default pool of the end-to-end test: 10 m by 5 m, 1.2 m to 2.5 m, no steps.\<close>

definition test_params :: pool_params where
  "test_params =
     \<lparr>pool_length = 10, pool_width = 5, shallow = 1.2, deep = 2.5,
      shallowFlat = 0, deepFlat = 0, stepCount = 0, stepDepth = 0.2\<rparr>"


text \<open>A 1.5 m pool with flats of 1.5 m and 3.5 m requested; all fields are doubles.\<close>

definition short_pool_params :: pool_params where
  "short_pool_params =
     \<lparr>pool_length = 1.5, pool_width = 1, shallow = 1, deep = 2,
      shallowFlat = 1.5, deepFlat = 3.5, stepCount = 0, stepDepth = 0.25\<rparr>"

text \<open>A 3 m pool whose ten steps use up the whole length; all fields are doubles.\<close>

definition no_room_params :: pool_params where
  "no_room_params =
     \<lparr>pool_length = 3, pool_width = 2, shallow = 1, deep = 2,
      shallowFlat = 1, deepFlat = 1, stepCount = 10, stepDepth = 0.125\<rparr>"

text \<open>A wading pool, shallower than the 0.5 m clamp at both ends.\<close>

definition wading_params :: pool_params where
  "wading_params =
     \<lparr>pool_length = 6, pool_width = 3, shallow = 0.3, deep = 0.4,
      shallowFlat = 0, deepFlat = 0, stepCount = 0, stepDepth = 0.2\<rparr>"

text \<open>Three steps of rise 0.2 m into a 1.2 m shallow end.\<close>

definition stepped_params :: pool_params where
  "stepped_params =
     \<lparr>pool_length = 10, pool_width = 5, shallow = 1.2, deep = 2.5,
      shallowFlat = 1, deepFlat = 1, stepCount = 3, stepDepth = 0.2\<rparr>"

text \<open>A freeform pentagon (vertex floor 3), as the constructor builds it.\<close>

definition pentagon :: polygon where
  "pentagon = new_polygon [(0, 0), (4, 0), (5, 3), (2, 5), (-1, 3)]"

text \<open>The unit square in clockwise order.\<close>

definition cw_square :: polygon where
  "cw_square = new_polygon [(0, 0), (0, 1), (1, 1), (1, 0)]"

text \<open>A clockwise convex quadrilateral with sides of one micrometre.\<close>

definition tiny_quad :: polygon where
  "tiny_quad =
     new_polygon [(0, 0), (0, 1 / 1000000), (1 / 1000000, 1 / 1000000), (1 / 1000000, 0)]"

text \<open>A clockwise, strictly convex quadrilateral whose corner \<open>(1, 0)\<close> is almost flat.\<close>

definition flat_quad :: polygon where
  "flat_quad = new_polygon [(0, 1), (2, 1 / 1000000), (1, 0), (0, 0)]"

text \<open>The closed perimeter of the 10 m by 5 m rectangle, as \<open>PoolBuilder.build\<close> samples it.\<close>

definition test_perimeter :: "vec2 list" where
  "test_perimeter = [(-5, -2.5), (5, -2.5), (5, 2.5), (-5, 2.5), (-5, -2.5)]"

text \<open>The same pool asked for steps of 5 mm rise.\<close>

definition fine_step_params :: pool_params where
  "fine_step_params =
     \<lparr>pool_length = 10, pool_width = 5, shallow = 1.2, deep = 2.5,
      shallowFlat = 1, deepFlat = 1, stepCount = 3, stepDepth = 0.005\<rparr>"

text \<open>Three steps of run length 0.3 m starting at the wall \<open>x = -5\<close>, and the same
  steps after the chain-push.\<close>

definition three_steps :: "mesh_box list" where
  "three_steps =
     [new_box 0.3 5 0.2 (- 4.85) 0 (- 0.35) None,
      new_box 0.3 5 0.2 (- 4.55) 0 (- 0.55) None,
      new_box 0.3 5 0.55 (- 4.25) 0 (- 0.925) None]"

text \<open>The south wall of the test pool reduced to one bottom and one top vertex of its
  outer face, and the UV origins of that pool.\<close>

definition test_wall :: mesh where
  "test_wall =
     \<lparr>geo = [((- 5, - 0.1, - 1.25), (0, - 1, 0)), ((- 5, - 0.1, 1.25), (0, - 1, 0))],
      m_position = (0, - 2.6, - 1.25),
      m_scale = (1, 1, 1),
      m_rotation_z = 0,
      isWall = True, isStep = False, isFloor = False, isRiser = False,
      forceVerticalUV = False,
      m_baseHeight = Some 2.5,
      geo_depth = Some 2.5,
      currentHeight = None,
      extraHeight = None\<rparr>"

definition test_origins :: uv_origins where
  "test_origins = \<lparr>stepUVOriginX = 0, stepUVOriginZ = 0, floorUVOrigin = (- 5, - 2.5)\<rparr>"

section \<open>Properties of double-precision rounding\<close>

subsection \<open>Rounding to the nearest integer\<close>

lemma rne_of_int: "rne (of_int n) = n"
  by (simp add: rne_def)

lemma rne_range: "\<lfloor>y\<rfloor> \<le> rne y" "rne y \<le> \<lfloor>y\<rfloor> + 1"
  by (simp_all add: rne_def Let_def)

lemma rne_mono:
  assumes "y1 \<le> y2"
  shows "rne y1 \<le> rne y2"
proof (cases "\<lfloor>y1\<rfloor> = \<lfloor>y2\<rfloor>")
  case True
  then show ?thesis using assms by (auto simp: rne_def Let_def)
next
  case False
  then have "\<lfloor>y1\<rfloor> < \<lfloor>y2\<rfloor>" using assms floor_mono[OF assms] by linarith
  then have "\<lfloor>y1\<rfloor> + 1 \<le> \<lfloor>y2\<rfloor>" by simp
  then show ?thesis using rne_range(2)[of y1] rne_range(1)[of y2] by linarith
qed

lemma rne_eqI:
  assumes "\<bar>y - of_int n\<bar> < 1 / 2"
  shows "rne y = n"
proof -
  have b: "of_int n - 1 / 2 < y" "y < of_int n + 1 / 2" using assms by linarith+
  show ?thesis
  proof (cases "of_int n \<le> y")
    case True
    then have f: "\<lfloor>y\<rfloor> = n" using b(2) by (intro floor_unique) simp_all
    then show ?thesis using b(2) by (simp add: rne_def Let_def)
  next
    case False
    then have f: "\<lfloor>y\<rfloor> = n - 1" using b(1) by (intro floor_unique) simp_all
    then show ?thesis using b(1) False by (simp add: rne_def Let_def)
  qed
qed

lemma rne_tieI:
  assumes "\<bar>y - of_int n\<bar> = 1 / 2" "even n"
  shows "rne y = n"
proof -
  from assms(1) consider (up) "y = of_int n + 1 / 2" | (down) "y = of_int n - 1 / 2"
    by (auto simp: abs_if split: if_splits)
  then show ?thesis
  proof cases
    case up
    then have f: "\<lfloor>y\<rfloor> = n" by (intro floor_unique) simp_all
    then show ?thesis using up assms(2) by (simp add: rne_def Let_def)
  next
    case down
    then have f: "\<lfloor>y\<rfloor> = n - 1" by (intro floor_unique) simp_all
    then show ?thesis using down assms(2) by (simp add: rne_def Let_def)
  qed
qed

lemma rne_err: "\<bar>of_int (rne y) - y\<bar> \<le> 1 / 2"
proof -
  have "of_int \<lfloor>y\<rfloor> \<le> y" "y < of_int \<lfloor>y\<rfloor> + 1" by simp_all
  then show ?thesis by (auto simp: rne_def Let_def abs_le_iff)
qed

lemma ulp_exp_eqI:
  assumes "0 < a" "2 powi (e + 52) \<le> a" "a < 2 powi (e + 53)"
  shows "ulp_exp a = e"
proof -
  have "(2::real) powr real_of_int (e + 52) = 2 powi (e + 52)"
    "(2::real) powr (real_of_int (e + 52) + 1) = 2 powi (e + 53)"
    using powr_real_of_int'[of 2 "e + 52"] powr_real_of_int'[of 2 "e + 53"]
    by (simp_all add: add.commute)
  then have "\<lfloor>log 2 a\<rfloor> = e + 52"
    using assms floor_log_eq_powr_iff[of a 2 "e + 52"] by simp
  then show ?thesis using assms(1) by (simp add: ulp_exp_def)
qed

lemma ulp_exp_bounds:
  assumes "0 < a"
  shows "2 powi (ulp_exp a + 52) \<le> a" "a < 2 powi (ulp_exp a + 53)"
proof -
  have k: "\<lfloor>log 2 a\<rfloor> = ulp_exp a + 52" using assms by (simp add: ulp_exp_def)
  have "(2::real) powr real_of_int (ulp_exp a + 52) = 2 powi (ulp_exp a + 52)"
    "(2::real) powr (real_of_int (ulp_exp a + 52) + 1) = 2 powi (ulp_exp a + 53)"
    using powr_real_of_int'[of 2 "ulp_exp a + 52"] powr_real_of_int'[of 2 "ulp_exp a + 53"]
    by (simp_all add: add.commute)
  then show "2 powi (ulp_exp a + 52) \<le> a" "a < 2 powi (ulp_exp a + 53)"
    using assms k floor_log_eq_powr_iff[of a 2 "ulp_exp a + 52"] by simp_all
qed

lemma ulp_exp_abs: "ulp_exp \<bar>x\<bar> = ulp_exp x" "ulp_exp (- x) = ulp_exp x"
  by (simp_all add: ulp_exp_def)

lemma fl_zero: "fl 0 = 0"
  by (simp add: fl_def)

lemma fl_minus: "fl (- x) = - fl x"
  by (simp add: fl_def ulp_exp_abs sgn_minus)

lemma fl_pos_eq:
  assumes "0 < x"
  shows "fl x = of_int (rne (x / 2 powi ulp_exp x)) * 2 powi ulp_exp x"
  using assms by (simp add: fl_def)

lemma p2_split: "(2::real) powi (e + 53) = 2 ^ 53 * 2 powi e" "(2::real) powi (e + 52) = 2 ^ 52 * 2 powi e"
  by (simp_all add: power_int_add)

lemma fl_eqI:
  assumes s: "s = 2 powi e" and x: "0 < x"
    and lo: "2 ^ 52 * s \<le> x" and hi: "x < 2 ^ 53 * s"
    and near: "\<bar>x - of_int n * s\<bar> < s / 2"
  shows "fl x = of_int n * s"
proof -
  have sp: "0 < s" using s by simp
  have e: "ulp_exp x = e"
    using x lo hi unfolding s by (intro ulp_exp_eqI) (simp_all add: p2_split)
  have "x / s - of_int n = (x - of_int n * s) / s" using sp by (simp add: field_simps)
  then have "\<bar>x / s - of_int n\<bar> = \<bar>x - of_int n * s\<bar> / \<bar>s\<bar>"
    by (simp only: abs_divide)
  also have "\<dots> = \<bar>x - of_int n * s\<bar> / s" using sp by simp
  also have "\<dots> < (s / 2) / s" using near sp by (rule divide_strict_right_mono)
  also have "\<dots> = 1 / 2" using sp by simp
  finally have "rne (x / s) = n" by (rule rne_eqI)
  then show ?thesis using x e s by (simp add: fl_pos_eq)
qed

lemma fl_eqI_tie:
  assumes s: "s = 2 powi e" and x: "0 < x"
    and lo: "2 ^ 52 * s \<le> x" and hi: "x < 2 ^ 53 * s"
    and near: "\<bar>x - of_int n * s\<bar> = s / 2" and ev: "even n"
  shows "fl x = of_int n * s"
proof -
  have sp: "0 < s" using s by simp
  have e: "ulp_exp x = e"
    using x lo hi unfolding s by (intro ulp_exp_eqI) (simp_all add: p2_split)
  have "x / s - of_int n = (x - of_int n * s) / s" using sp by (simp add: field_simps)
  then have "\<bar>x / s - of_int n\<bar> = \<bar>x - of_int n * s\<bar> / \<bar>s\<bar>"
    by (simp only: abs_divide)
  also have "\<dots> = (s / 2) / s" using sp near by simp
  also have "\<dots> = 1 / 2" using sp by simp
  finally have "rne (x / s) = n" using ev by (rule rne_tieI)
  then show ?thesis using x e s by (simp add: fl_pos_eq)
qed

lemma fl_pos_bounds:
  assumes "0 < x"
  shows "2 powi (ulp_exp x + 52) \<le> fl x" "fl x \<le> 2 powi (ulp_exp x + 53)"
proof -
  let ?s = "(2::real) powi ulp_exp x"
  have sp: "0 < ?s" by simp
  note b = ulp_exp_bounds[OF assms, unfolded p2_split]
  have "of_int (2 ^ 52) \<le> x / ?s" using b(1) sp by (simp add: pos_le_divide_eq)
  then have "rne (of_int (2 ^ 52)) \<le> rne (x / ?s)" by (rule rne_mono)
  then have "(2::int) ^ 52 \<le> rne (x / ?s)" unfolding rne_of_int .
  then have "real_of_int (2 ^ 52) \<le> of_int (rne (x / ?s))" by (rule of_int_le_iff[THEN iffD2])
  then have "2 ^ 52 * ?s \<le> of_int (rne (x / ?s)) * ?s" using sp by simp
  then show "2 powi (ulp_exp x + 52) \<le> fl x" unfolding p2_split fl_pos_eq[OF assms] .
  have "x / ?s \<le> of_int (2 ^ 53)" using b(2) sp by (simp add: pos_divide_le_eq)
  then have "rne (x / ?s) \<le> rne (of_int (2 ^ 53))" by (rule rne_mono)
  then have "rne (x / ?s) \<le> (2::int) ^ 53" unfolding rne_of_int .
  then have "of_int (rne (x / ?s)) \<le> real_of_int (2 ^ 53)" by (rule of_int_le_iff[THEN iffD2])
  then have "of_int (rne (x / ?s)) * ?s \<le> 2 ^ 53 * ?s" using sp by simp
  then show "fl x \<le> 2 powi (ulp_exp x + 53)" unfolding p2_split fl_pos_eq[OF assms] .
qed

lemma fl_pos: "0 < x \<Longrightarrow> 0 < fl x"
  using fl_pos_bounds(1)[of x] zero_less_power_int[of "2::real" "ulp_exp x + 52"] by linarith

lemma ulp_exp_mono:
  assumes "0 < x" "x \<le> y"
  shows "ulp_exp x \<le> ulp_exp y"
proof -
  have "log 2 x \<le> log 2 y" using assms by simp
  then have "\<lfloor>log 2 x\<rfloor> \<le> \<lfloor>log 2 y\<rfloor>" by (rule floor_mono)
  then show ?thesis using assms by (simp add: ulp_exp_def)
qed

lemma fl_mono_pos:
  assumes "0 < x" "x \<le> y"
  shows "fl x \<le> fl y"
proof -
  have y: "0 < y" using assms by linarith
  have le: "ulp_exp x \<le> ulp_exp y" by (rule ulp_exp_mono[OF assms])
  show ?thesis
  proof (cases "ulp_exp x = ulp_exp y")
    case True
    let ?s = "(2::real) powi ulp_exp y"
    have sp: "0 < ?s" by simp
    have "x / ?s \<le> y / ?s" using assms(2) sp by (simp add: divide_right_mono)
    then have "rne (x / ?s) \<le> rne (y / ?s)" by (rule rne_mono)
    then have "real_of_int (rne (x / ?s)) * ?s \<le> of_int (rne (y / ?s)) * ?s"
      using sp by simp
    then show ?thesis unfolding fl_pos_eq[OF assms(1)] fl_pos_eq[OF y] True .
  next
    case False
    then have "ulp_exp x + 53 \<le> ulp_exp y + 52" using le by simp
    then have "(2::real) powi (ulp_exp x + 53) \<le> 2 powi (ulp_exp y + 52)"
      by (intro power_int_increasing) simp_all
    then show ?thesis
      using fl_pos_bounds(2)[OF assms(1)] fl_pos_bounds(1)[OF y] by linarith
  qed
qed

lemma fl_mono:
  assumes "x \<le> y"
  shows "fl x \<le> fl y"
proof -
  consider (pos) "0 < x" | (neg) "y < 0" | (mid) "x \<le> 0" "0 \<le> y" by linarith
  then show ?thesis
  proof cases
    case pos
    then show ?thesis using assms by (rule fl_mono_pos)
  next
    case neg
    then have "0 < - y" "- y \<le> - x" using assms by simp_all
    then have "fl (- y) \<le> fl (- x)" by (rule fl_mono_pos)
    then show ?thesis by (simp add: fl_minus)
  next
    case mid
    have "fl x \<le> 0"
    proof (cases "x = 0")
      case True
      then show ?thesis by (simp add: fl_zero)
    next
      case False
      then have "0 < fl (- x)" using mid(1) by (intro fl_pos) simp
      then show ?thesis by (simp add: fl_minus)
    qed
    moreover have "0 \<le> fl y"
    proof (cases "y = 0")
      case True
      then show ?thesis by (simp add: fl_zero)
    next
      case False
      then have "0 < fl y" using mid(2) by (intro fl_pos) simp
      then show ?thesis by simp
    qed
    ultimately show ?thesis by linarith
  qed
qed

lemma fl_nonneg: "0 \<le> x \<Longrightarrow> 0 \<le> fl x"
  using fl_mono[of 0 x] by (simp add: fl_zero)

lemma fl_half: "fl (1 / 2) = 1 / 2"
  using fl_eqI[where e = "- 53" and n = "2 ^ 52" and x = "1 / 2" and s = "1 / 2 ^ 53"]
  by (simp add: power_int_minus_divide)

subsection \<open>Rounding error\<close>

lemma fl_rel_err_pos:
  assumes "0 < x"
  shows "\<bar>fl x - x\<bar> \<le> roundoff * x"
proof -
  let ?s = "(2::real) powi ulp_exp x"
  have sp: "0 < ?s" by simp
  have lo: "2 ^ 52 * ?s \<le> x" using ulp_exp_bounds(1)[OF assms] by (simp add: p2_split)
  have "fl x - x = (of_int (rne (x / ?s)) - x / ?s) * ?s"
    using sp by (simp add: fl_pos_eq[OF assms] field_simps)
  then have "\<bar>fl x - x\<bar> = \<bar>of_int (rne (x / ?s)) - x / ?s\<bar> * ?s"
    using sp by (simp add: abs_mult)
  also have "\<dots> \<le> (1 / 2) * ?s"
    using rne_err[of "x / ?s"] sp by (intro mult_right_mono) simp_all
  also have "\<dots> = roundoff * (2 ^ 52 * ?s)" by (simp add: roundoff_def)
  also have "\<dots> \<le> roundoff * x" using lo by (intro mult_left_mono) (simp_all add: roundoff_def)
  finally show ?thesis .
qed

lemma fl_rel_err: "\<bar>fl x - x\<bar> \<le> roundoff * \<bar>x\<bar>"
proof -
  consider (pos) "0 < x" | (zero) "x = 0" | (neg) "x < 0" by linarith
  then show ?thesis
  proof cases
    case pos
    then show ?thesis using fl_rel_err_pos[OF pos] by simp
  next
    case zero
    then show ?thesis by (simp add: fl_zero)
  next
    case neg
    then have "\<bar>fl (- x) - (- x)\<bar> \<le> roundoff * (- x)" by (intro fl_rel_err_pos) simp
    moreover have "\<bar>fl (- x) - (- x)\<bar> = \<bar>fl x - x\<bar>" by (simp add: fl_minus)
    ultimately show ?thesis using neg by simp
  qed
qed

lemma roundoff_pos: "0 < roundoff" "roundoff \<le> 1 / 4"
  by (simp_all add: roundoff_def)

lemma fl_upper: "0 \<le> x \<Longrightarrow> fl x \<le> (1 + roundoff) * x"
  using fl_rel_err[of x] by (simp add: algebra_simps abs_le_iff)

lemma fl_lower: "x - roundoff * \<bar>x\<bar> \<le> fl x"
  using fl_rel_err[of x] by (simp add: abs_le_iff)

lemma fl_upper_abs: "fl x \<le> x + roundoff * \<bar>x\<bar>"
  using fl_rel_err[of x] by (simp add: abs_le_iff)

lemma fl_abs_le: "\<bar>fl x\<bar> \<le> (1 + roundoff) * \<bar>x\<bar>"
proof -
  have "\<bar>fl x\<bar> \<le> \<bar>fl x - x\<bar> + \<bar>x\<bar>" by simp
  also have "\<dots> \<le> roundoff * \<bar>x\<bar> + \<bar>x\<bar>" using fl_rel_err[of x] by simp
  finally show ?thesis by (simp add: algebra_simps)
qed

lemma fl_one: "fl 1 = 1"
  using fl_eqI[where e = "- 52" and n = "2 ^ 52" and x = 1 and s = "1 / 2 ^ 52"]
  by (simp add: power_int_minus_divide)

lemma fl_cm: "fl (1 / 100) = 5764607523034235 / 576460752303423488"
  using fl_eqI[where e = "- 59" and n = 5764607523034235 and x = "1 / 100" and s = "1 / 2 ^ 59"]
  by (simp add: power_int_minus_divide)

lemma fl_cm_ge: "1 / 100 \<le> fl (1 / 100)"
  by (simp add: fl_cm)

lemma is_double_max:
  assumes "is_double x" "is_double y"
  shows "is_double (max x y)"
  using assms by (simp add: max_def)

lemma is_double_half: "is_double (1 / 2)"
  by (simp add: is_double_def fl_half)

section \<open>Properties of the depth profiler\<close>

subsection \<open>Shape of the computed profile\<close>

lemma or0_id: "or0 x = x"
  by (simp add: or0_def)

lemma dx_max: "(if y < 0 then 0 else y) = max 0 (y::real)"
  by simp

lemma scale_le_one:
  assumes "0 \<le> m" "m < tot"
  shows "0 \<le> fl (m / tot)" "fl (m / tot) \<le> 1"
proof -
  have t: "0 < tot" using assms by linarith
  have "0 \<le> m / tot" using assms(1) t by simp
  then show "0 \<le> fl (m / tot)" by (rule fl_nonneg)
  have "m / tot \<le> 1" using assms(2) t by simp
  then have "fl (m / tot) \<le> fl 1" by (rule fl_mono)
  then show "fl (m / tot) \<le> 1" by (simp add: fl_one)
qed

lemma scaled_abs:
  assumes "0 \<le> k" "k \<le> 1"
  shows "\<bar>fl (x * k)\<bar> \<le> (1 + roundoff) * \<bar>x\<bar>"
proof -
  have "\<bar>x * k\<bar> = \<bar>x\<bar> * k" using assms(1) by (simp add: abs_mult)
  also have "\<dots> \<le> \<bar>x\<bar> * 1" using assms(2) by (intro mult_left_mono) simp_all
  finally have le: "\<bar>x * k\<bar> \<le> \<bar>x\<bar>" by simp
  have "\<bar>fl (x * k)\<bar> \<le> (1 + roundoff) * \<bar>x * k\<bar>" by (rule fl_abs_le)
  also have "\<dots> \<le> (1 + roundoff) * \<bar>x\<bar>"
    using le roundoff_pos(1) by (intro mult_left_mono) simp_all
  finally show ?thesis .
qed

lemma compute_shape:
  obtains S D L where
    "\<bar>S\<bar> \<le> (1 + roundoff) * \<bar>shallowFlat params\<bar>"
    "\<bar>D\<bar> \<le> (1 + roundoff) * \<bar>deepFlat params\<bar>"
    "L = max (fl 0.01) (fl (fl (fl (axisEndX - originX) - S) - D))"
    "\<And>worldX. computeRectangleDepthAtX worldX params axisStartX axisEndX originX =
       (if max 0 (fl (worldX - originX)) \<le> S then - max 0.5 (shallow params)
        else if fl (fl (axisEndX - originX) - D) \<le> max 0 (fl (worldX - originX))
        then - max (max 0.5 (shallow params)) (deep params)
        else - fl (max 0.5 (shallow params)
                   + fl (fl (fl (max 0 (fl (worldX - originX)) - S) / L)
                         * fl (max (max 0.5 (shallow params)) (deep params)
                               - max 0.5 (shallow params)))))"
proof -
  let ?F = "fl (axisEndX - originX)"
  let ?m = "max 0 (fl (?F - fl 0.01))"
  let ?tot = "fl (shallowFlat params + deepFlat params)"
  let ?k = "fl (?m / ?tot)"
  have u1: "1 \<le> 1 + roundoff" using roundoff_pos(1) by simp
  show ?thesis
  proof (cases "?tot > ?m")
    case True
    have m0: "0 \<le> ?m" by simp
    note k = scale_le_one[OF m0 True]
    show ?thesis
    proof (rule that[of "fl (shallowFlat params * ?k)" "fl (deepFlat params * ?k)"
          "max (fl 0.01) (fl (fl (?F - fl (shallowFlat params * ?k)) - fl (deepFlat params * ?k)))"])
      show "\<bar>fl (shallowFlat params * ?k)\<bar> \<le> (1 + roundoff) * \<bar>shallowFlat params\<bar>"
        by (rule scaled_abs[OF k])
      show "\<bar>fl (deepFlat params * ?k)\<bar> \<le> (1 + roundoff) * \<bar>deepFlat params\<bar>"
        by (rule scaled_abs[OF k])
      show "max (fl 0.01) (fl (fl (?F - fl (shallowFlat params * ?k)) - fl (deepFlat params * ?k)))
            = max (fl 0.01) (fl (fl (?F - fl (shallowFlat params * ?k)) - fl (deepFlat params * ?k)))"
        by (rule refl)
      fix worldX
      show "computeRectangleDepthAtX worldX params axisStartX axisEndX originX =
       (if max 0 (fl (worldX - originX)) \<le> fl (shallowFlat params * ?k)
        then - max 0.5 (shallow params)
        else if fl (?F - fl (deepFlat params * ?k)) \<le> max 0 (fl (worldX - originX))
        then - max (max 0.5 (shallow params)) (deep params)
        else - fl (max 0.5 (shallow params)
                   + fl (fl (fl (max 0 (fl (worldX - originX)) - fl (shallowFlat params * ?k))
                             / max (fl 0.01) (fl (fl (?F - fl (shallowFlat params * ?k))
                                                  - fl (deepFlat params * ?k))))
                         * fl (max (max 0.5 (shallow params)) (deep params)
                               - max 0.5 (shallow params)))))"
        unfolding computeRectangleDepthAtX_def Let_def or0_id dx_max
        by (simp only: True if_True split_conv)
    qed
  next
    case False
    show ?thesis
    proof (rule that[of "shallowFlat params" "deepFlat params"
          "max (fl 0.01) (fl (fl (?F - shallowFlat params) - deepFlat params))"])
      show "\<bar>shallowFlat params\<bar> \<le> (1 + roundoff) * \<bar>shallowFlat params\<bar>"
        using u1 by (simp add: mult_le_cancel_right1)
      show "\<bar>deepFlat params\<bar> \<le> (1 + roundoff) * \<bar>deepFlat params\<bar>"
        using u1 by (simp add: mult_le_cancel_right1)
      show "max (fl 0.01) (fl (fl (?F - shallowFlat params) - deepFlat params))
            = max (fl 0.01) (fl (fl (?F - shallowFlat params) - deepFlat params))"
        by (rule refl)
      fix worldX
      show "computeRectangleDepthAtX worldX params axisStartX axisEndX originX =
       (if max 0 (fl (worldX - originX)) \<le> shallowFlat params
        then - max 0.5 (shallow params)
        else if fl (?F - deepFlat params) \<le> max 0 (fl (worldX - originX))
        then - max (max 0.5 (shallow params)) (deep params)
        else - fl (max 0.5 (shallow params)
                   + fl (fl (fl (max 0 (fl (worldX - originX)) - shallowFlat params)
                             / max (fl 0.01) (fl (fl (?F - shallowFlat params) - deepFlat params)))
                         * fl (max (max 0.5 (shallow params)) (deep params)
                               - max 0.5 (shallow params)))))"
        unfolding computeRectangleDepthAtX_def Let_def or0_id dx_max
        by (simp only: False if_False split_conv)
    qed
  qed
qed

subsection \<open>The slope value\<close>

text \<open>The value on the slope as a function of the clamped distance.\<close>

lemma slope_value_mono:
  assumes L: "0 < L" and sd: "cs \<le> cd" and le: "d1 \<le> d2"
  shows "fl (cs + fl (fl (fl (d1 - S) / L) * fl (cd - cs)))
           \<le> fl (cs + fl (fl (fl (d2 - S) / L) * fl (cd - cs)))"
proof -
  have g: "0 \<le> fl (cd - cs)" using sd by (intro fl_nonneg) simp
  have "fl (d1 - S) \<le> fl (d2 - S)" using le by (intro fl_mono) simp
  then have "fl (d1 - S) / L \<le> fl (d2 - S) / L" using L by (simp add: divide_right_mono)
  then have "fl (fl (d1 - S) / L) \<le> fl (fl (d2 - S) / L)" by (rule fl_mono)
  then have "fl (fl (d1 - S) / L) * fl (cd - cs) \<le> fl (fl (d2 - S) / L) * fl (cd - cs)"
    using g by (rule mult_right_mono)
  then have "fl (fl (fl (d1 - S) / L) * fl (cd - cs)) \<le> fl (fl (fl (d2 - S) / L) * fl (cd - cs))"
    by (rule fl_mono)
  then show ?thesis by (intro fl_mono) simp
qed

lemma slope_value_ge:
  assumes L: "0 < L" and sd: "cs \<le> cd" and d: "S \<le> d" and dbl: "is_double cs"
  shows "cs \<le> fl (cs + fl (fl (fl (d - S) / L) * fl (cd - cs)))"
proof -
  have g: "0 \<le> fl (cd - cs)" using sd by (intro fl_nonneg) simp
  have "0 \<le> fl (d - S)" using d by (intro fl_nonneg) simp
  then have "0 \<le> fl (d - S) / L" using L by simp
  then have "0 \<le> fl (fl (d - S) / L)" by (rule fl_nonneg)
  then have "0 \<le> fl (fl (d - S) / L) * fl (cd - cs)" using g by (rule mult_nonneg_nonneg)
  then have "0 \<le> fl (fl (fl (d - S) / L) * fl (cd - cs))" by (rule fl_nonneg)
  then have "fl cs \<le> fl (cs + fl (fl (fl (d - S) / L) * fl (cd - cs)))"
    by (intro fl_mono) simp
  then show ?thesis using dbl by (simp add: is_double_def)
qed

lemma slopeLen_pos: "0 < max (fl 0.01) x"
proof -
  have "0 < fl (1 / 100)" by (simp add: fl_cm)
  then show ?thesis by (simp add: less_max_iff_disj)
qed

lemma clamped_shallow_double:
  assumes "is_double (shallow params)"
  shows "is_double (max 0.5 (shallow params))"
  using is_double_max[OF is_double_half assms] by simp

lemma compute_upper:
  assumes "is_double (shallow params)"
  shows "computeRectangleDepthAtX worldX params axisStartX axisEndX originX
           \<le> - max 0.5 (shallow params)"
proof -
  let ?cs = "max 0.5 (shallow params)"
  let ?cd = "max ?cs (deep params)"
  obtain S D L where
    L: "L = max (fl 0.01) (fl (fl (fl (axisEndX - originX) - S) - D))"
    and c: "\<And>worldX. computeRectangleDepthAtX worldX params axisStartX axisEndX originX =
       (if max 0 (fl (worldX - originX)) \<le> S then - ?cs
        else if fl (fl (axisEndX - originX) - D) \<le> max 0 (fl (worldX - originX)) then - ?cd
        else - fl (?cs + fl (fl (fl (max 0 (fl (worldX - originX)) - S) / L) * fl (?cd - ?cs))))"
    by (rule compute_shape[of params axisEndX originX axisStartX]) blast
  have Lp: "0 < L" unfolding L by (rule slopeLen_pos)
  have sd: "?cs \<le> ?cd" by simp
  show ?thesis
  proof (cases "max 0 (fl (worldX - originX)) \<le> S")
    case True
    then show ?thesis by (simp only: c if_True order_refl)
  next
    case nS: False
    show ?thesis
    proof (cases "fl (fl (axisEndX - originX) - D) \<le> max 0 (fl (worldX - originX))")
      case True
      then show ?thesis using nS sd by (simp only: c if_True if_False neg_le_iff_le)
    next
      case False
      have "S \<le> max 0 (fl (worldX - originX))" using nS by linarith
      from slope_value_ge[OF Lp sd this clamped_shallow_double[OF assms]]
      show ?thesis using nS False by (simp only: c if_False neg_le_iff_le)
    qed
  qed
qed

lemma compute_mono:
  assumes dbl: "is_double (shallow params)" and le: "x1 \<le> x2"
  shows "computeRectangleDepthAtX x2 params axisStartX axisEndX originX
           \<le> computeRectangleDepthAtX x1 params axisStartX axisEndX originX
         \<or> computeRectangleDepthAtX x2 params axisStartX axisEndX originX
             = - max (max 0.5 (shallow params)) (deep params)"
proof -
  let ?cs = "max 0.5 (shallow params)"
  let ?cd = "max ?cs (deep params)"
  let ?dx = "\<lambda>x. max 0 (fl (x - originX))"
  let ?B = "fl (fl (axisEndX - originX) - D)"
  obtain S D L where
    L: "L = max (fl 0.01) (fl (fl (fl (axisEndX - originX) - S) - D))"
    and c: "\<And>worldX. computeRectangleDepthAtX worldX params axisStartX axisEndX originX =
       (if ?dx worldX \<le> S then - ?cs
        else if fl (fl (axisEndX - originX) - D) \<le> ?dx worldX then - ?cd
        else - fl (?cs + fl (fl (fl (?dx worldX - S) / L) * fl (?cd - ?cs))))"
    by (rule compute_shape[of params axisEndX originX axisStartX]) blast
  have Lp: "0 < L" unfolding L by (rule slopeLen_pos)
  have sd: "?cs \<le> ?cd" by simp
  have "fl (x1 - originX) \<le> fl (x2 - originX)" using le by (intro fl_mono) simp
  then have dx: "?dx x1 \<le> ?dx x2" by (rule max.mono[OF order_refl])
  show ?thesis
  proof (cases "?dx x2 \<le> S")
    case True
    then have "?dx x1 \<le> S" using dx by linarith
    then show ?thesis using True by (simp only: c if_True order_refl simp_thms)
  next
    case n2: False
    show ?thesis
    proof (cases "fl (fl (axisEndX - originX) - D) \<le> ?dx x2")
      case True
      then show ?thesis using n2 by (simp only: c if_True if_False simp_thms)
    next
      case b2: False
      then have b1: "\<not> fl (fl (axisEndX - originX) - D) \<le> ?dx x1" using dx by linarith
      have z2: "computeRectangleDepthAtX x2 params axisStartX axisEndX originX
                  = - fl (?cs + fl (fl (fl (?dx x2 - S) / L) * fl (?cd - ?cs)))"
        using n2 b2 by (simp only: c if_False)
      show ?thesis
      proof (cases "?dx x1 \<le> S")
        case True
        then have z1: "computeRectangleDepthAtX x1 params axisStartX axisEndX originX = - ?cs"
          by (simp only: c if_True)
        have "computeRectangleDepthAtX x2 params axisStartX axisEndX originX \<le> - ?cs"
          by (rule compute_upper[OF dbl])
        then show ?thesis unfolding z1 by (rule disjI1)
      next
        case False
        then have z1: "computeRectangleDepthAtX x1 params axisStartX axisEndX originX
                  = - fl (?cs + fl (fl (fl (?dx x1 - S) / L) * fl (?cd - ?cs)))"
          using b1 by (simp only: c if_False)
        from slope_value_mono[OF Lp sd dx, of S]
        show ?thesis unfolding z1 z2 by (intro disjI1) (simp only: neg_le_iff_le)
      qed
    qed
  qed
qed

subsection \<open>How far rounding can take the slope below the deep end\<close>

lemma slope_excess:
  fixes F S D d :: real
  assumes d: "d < fl (F - D)"
    and L: "L = max (fl 0.01) (fl (fl (F - S) - D))"
  shows "d - S \<le> L + roundoff * (\<bar>fl (F - S) - D\<bar> + \<bar>F - S\<bar> + \<bar>F - D\<bar>)"
proof -
  have b: "fl (F - D) \<le> (F - D) + roundoff * \<bar>F - D\<bar>" by (rule fl_upper_abs)
  have a: "(F - S) - roundoff * \<bar>F - S\<bar> \<le> fl (F - S)" by (rule fl_lower)
  have s: "(fl (F - S) - D) - roundoff * \<bar>fl (F - S) - D\<bar> \<le> fl (fl (F - S) - D)"
    by (rule fl_lower)
  have l: "fl (fl (F - S) - D) \<le> L" unfolding L by simp
  have "roundoff * (\<bar>fl (F - S) - D\<bar> + \<bar>F - S\<bar> + \<bar>F - D\<bar>)
          = roundoff * \<bar>fl (F - S) - D\<bar> + roundoff * \<bar>F - S\<bar> + roundoff * \<bar>F - D\<bar>"
    by (simp add: algebra_simps)
  then show ?thesis using d b a s l by linarith
qed

lemma excess_bound:
  fixes F S D s0 d0 :: real
  assumes S: "\<bar>S\<bar> \<le> (1 + roundoff) * \<bar>s0\<bar>" and D: "\<bar>D\<bar> \<le> (1 + roundoff) * \<bar>d0\<bar>"
  shows "\<bar>fl (F - S) - D\<bar> + \<bar>F - S\<bar> + \<bar>F - D\<bar> \<le> 4 * (\<bar>F\<bar> + \<bar>s0\<bar> + \<bar>d0\<bar>)"
proof -
  have u: "1 + roundoff \<le> 5 / 4" using roundoff_pos(2) by simp
  have S': "\<bar>S\<bar> \<le> 5 / 4 * \<bar>s0\<bar>"
    using S mult_right_mono[OF u, of "\<bar>s0\<bar>"] by simp
  have D': "\<bar>D\<bar> \<le> 5 / 4 * \<bar>d0\<bar>"
    using D mult_right_mono[OF u, of "\<bar>d0\<bar>"] by simp
  have "\<bar>fl (F - S)\<bar> \<le> (1 + roundoff) * \<bar>F - S\<bar>" by (rule fl_abs_le)
  also have "\<dots> \<le> 5 / 4 * \<bar>F - S\<bar>" using u by (intro mult_right_mono) simp_all
  finally have A: "\<bar>fl (F - S)\<bar> \<le> 5 / 4 * \<bar>F - S\<bar>" .
  have t1: "\<bar>F - S\<bar> \<le> \<bar>F\<bar> + \<bar>S\<bar>" "\<bar>F - D\<bar> \<le> \<bar>F\<bar> + \<bar>D\<bar>"
    "\<bar>fl (F - S) - D\<bar> \<le> \<bar>fl (F - S)\<bar> + \<bar>D\<bar>"
    by simp_all
  define aF aS aD as ad aA aFS aFD aAD where
    "aF = \<bar>F\<bar>" and "aS = \<bar>S\<bar>" and "aD = \<bar>D\<bar>" and "as = \<bar>s0\<bar>" and "ad = \<bar>d0\<bar>"
    and "aA = \<bar>fl (F - S)\<bar>" and "aFS = \<bar>F - S\<bar>" and "aFD = \<bar>F - D\<bar>"
    and "aAD = \<bar>fl (F - S) - D\<bar>"
  have pos: "0 \<le> aF" "0 \<le> as" "0 \<le> ad"
    by (simp_all add: aF_def as_def ad_def)
  have f: "aS \<le> 5 / 4 * as" "aD \<le> 5 / 4 * ad" "aA \<le> 5 / 4 * aFS"
    "aFS \<le> aF + aS" "aFD \<le> aF + aD" "aAD \<le> aA + aD"
    using S' D' A t1 unfolding aF_def aS_def aD_def as_def ad_def aA_def aFS_def aFD_def aAD_def
    by blast+
  have "aAD + aFS + aFD \<le> 4 * (aF + as + ad)" using pos f by argo
  then show ?thesis
    unfolding aF_def aS_def aD_def as_def ad_def aA_def aFS_def aFD_def aAD_def .
qed

lemma slope_param_bound:
  fixes F S D d s0 d0 :: real
  assumes lo: "S < d" and hi: "d < fl (F - D)"
    and L: "L = max (fl 0.01) (fl (fl (F - S) - D))"
    and S: "\<bar>S\<bar> \<le> (1 + roundoff) * \<bar>s0\<bar>" and D: "\<bar>D\<bar> \<le> (1 + roundoff) * \<bar>d0\<bar>"
  shows "0 \<le> fl (fl (d - S) / L)"
    and "fl (fl (d - S) / L)
           \<le> (1 + roundoff) ^ 2 * (1 + 400 * roundoff * (\<bar>F\<bar> + \<bar>s0\<bar> + \<bar>d0\<bar>))"
proof -
  define W where "W = \<bar>F\<bar> + \<bar>s0\<bar> + \<bar>d0\<bar>"
  define E where "E = roundoff * (\<bar>fl (F - S) - D\<bar> + \<bar>F - S\<bar> + \<bar>F - D\<bar>)"
  have u0: "0 < roundoff" "0 \<le> 1 + roundoff" "0 < 1 + roundoff" using roundoff_pos(1) by simp_all
  have W0: "0 \<le> W" by (simp add: W_def)
  have Lp: "0 < L" unfolding L by (rule slopeLen_pos)
  have Lc: "1 / 100 \<le> L" unfolding L using fl_cm_ge by simp
  have E0: "0 \<le> E" unfolding E_def using u0(1) by simp
  have EW: "E \<le> roundoff * (4 * W)"
    unfolding E_def W_def using excess_bound[OF S D, of F] u0(1) by (intro mult_left_mono) simp_all
  have ex: "d - S \<le> L + E" unfolding E_def by (rule slope_excess[OF hi L])
  have dS: "0 \<le> d - S" using lo by simp
  have a0: "0 \<le> fl (d - S)" using dS by (rule fl_nonneg)
  have q0: "0 \<le> fl (d - S) / L" using a0 Lp by simp
  show t0: "0 \<le> fl (fl (d - S) / L)" using q0 by (rule fl_nonneg)
  have "fl (d - S) \<le> (1 + roundoff) * (d - S)" using dS by (rule fl_upper)
  also have "\<dots> \<le> (1 + roundoff) * (L + E)" using ex u0(2) by (rule mult_left_mono)
  finally have a: "fl (d - S) \<le> (1 + roundoff) * (L + E)" .
  have "E / L \<le> E / (1 / 100)" using Lc E0 by (intro divide_left_mono) simp_all
  also have "\<dots> = 100 * E" by simp
  also have "\<dots> \<le> 100 * (roundoff * (4 * W))" using EW by simp
  also have "\<dots> = 400 * roundoff * W" by simp
  finally have EL: "E / L \<le> 400 * roundoff * W" .
  have "fl (d - S) / L \<le> ((1 + roundoff) * (L + E)) / L"
    using a Lp by (simp add: divide_right_mono)
  also have "\<dots> = (1 + roundoff) * (1 + E / L)" using Lp by (simp add: field_simps)
  also have "\<dots> \<le> (1 + roundoff) * (1 + 400 * roundoff * W)"
    using EL u0(2) by (intro mult_left_mono) simp_all
  finally have q: "fl (d - S) / L \<le> (1 + roundoff) * (1 + 400 * roundoff * W)" .
  have "fl (fl (d - S) / L) \<le> (1 + roundoff) * (fl (d - S) / L)" using q0 by (rule fl_upper)
  also have "\<dots> \<le> (1 + roundoff) * ((1 + roundoff) * (1 + 400 * roundoff * W))"
    using q u0(2) by (rule mult_left_mono)
  also have "\<dots> = (1 + roundoff) ^ 2 * (1 + 400 * roundoff * W)"
    by (simp add: power2_eq_square)
  finally show "fl (fl (d - S) / L)
           \<le> (1 + roundoff) ^ 2 * (1 + 400 * roundoff * (\<bar>F\<bar> + \<bar>s0\<bar> + \<bar>d0\<bar>))"
    unfolding W_def .
qed

lemma slope_value_le:
  fixes cs cd t Q :: real
  assumes cs: "0 \<le> cs" and sd: "cs \<le> cd" and t0: "0 \<le> t"
    and t: "t \<le> (1 + roundoff) ^ 2 * Q" and Q: "1 \<le> Q"
  shows "fl (cs + fl (t * fl (cd - cs))) \<le> cd * ((1 + roundoff) ^ 5 * Q)"
proof -
  define u where "u = 1 + roundoff"
  have u1: "1 \<le> u" "0 \<le> u" "0 < u" using roundoff_pos(1) by (simp_all add: u_def)
  have Q0: "0 \<le> Q" using Q by simp
  have g0: "0 \<le> fl (cd - cs)" using sd by (intro fl_nonneg) simp
  have "fl (cd - cs) \<le> (1 + roundoff) * (cd - cs)" using sd by (intro fl_upper) simp
  then have g: "fl (cd - cs) \<le> u * (cd - cs)" by (simp add: u_def)
  have t': "t \<le> u ^ 2 * Q" using t by (simp add: u_def)
  have "t * fl (cd - cs) \<le> (u ^ 2 * Q) * (u * (cd - cs))"
    using t' g t0 g0 by (intro mult_mono) (simp_all add: u1 Q0)
  also have "\<dots> = u ^ 3 * Q * (cd - cs)" by (simp add: power3_eq_cube power2_eq_square)
  finally have tg: "t * fl (cd - cs) \<le> u ^ 3 * Q * (cd - cs)" .
  have tg0: "0 \<le> t * fl (cd - cs)" using t0 g0 by (rule mult_nonneg_nonneg)
  have "fl (t * fl (cd - cs)) \<le> (1 + roundoff) * (t * fl (cd - cs))" using tg0 by (rule fl_upper)
  also have "\<dots> \<le> u * (u ^ 3 * Q * (cd - cs))"
    unfolding u_def[symmetric] using tg u1(2) by (rule mult_left_mono)
  also have "\<dots> = u ^ 4 * Q * (cd - cs)" by (simp add: power_eq_if)
  finally have p: "fl (t * fl (cd - cs)) \<le> u ^ 4 * Q * (cd - cs)" .
  have p0: "0 \<le> fl (t * fl (cd - cs))" using tg0 by (rule fl_nonneg)
  have K1: "1 \<le> u ^ 4 * Q"
  proof -
    have "1 \<le> u ^ 4" using u1(1) by (rule one_le_power)
    then have "1 * 1 \<le> u ^ 4 * Q" using Q by (intro mult_mono) simp_all
    then show ?thesis by simp
  qed
  have "cs * 1 \<le> cs * (u ^ 4 * Q)" using K1 cs by (rule mult_left_mono)
  then have "cs + u ^ 4 * Q * (cd - cs) \<le> u ^ 4 * Q * cd" by (simp add: algebra_simps)
  then have sum: "cs + fl (t * fl (cd - cs)) \<le> u ^ 4 * Q * cd" using p by linarith
  have sum0: "0 \<le> cs + fl (t * fl (cd - cs))" using cs p0 by simp
  have "fl (cs + fl (t * fl (cd - cs))) \<le> (1 + roundoff) * (cs + fl (t * fl (cd - cs)))"
    using sum0 by (rule fl_upper)
  also have "\<dots> \<le> u * (u ^ 4 * Q * cd)"
    unfolding u_def[symmetric] using sum u1(2) by (rule mult_left_mono)
  also have "\<dots> = cd * (u ^ 5 * Q)" by (simp add: power_eq_if)
  finally show ?thesis unfolding u_def .
qed

lemma compute_lower:
  "- (max (max 0.5 (shallow params)) (deep params)
        * ((1 + roundoff) ^ 5
           * (1 + 400 * roundoff
                  * (\<bar>fl (axisEndX - originX)\<bar> + \<bar>shallowFlat params\<bar> + \<bar>deepFlat params\<bar>))))
     \<le> computeRectangleDepthAtX worldX params axisStartX axisEndX originX"
proof -
  let ?cs = "max 0.5 (shallow params)"
  let ?cd = "max ?cs (deep params)"
  let ?F = "fl (axisEndX - originX)"
  let ?d = "max 0 (fl (worldX - originX))"
  define Q where "Q = 1 + 400 * roundoff * (\<bar>?F\<bar> + \<bar>shallowFlat params\<bar> + \<bar>deepFlat params\<bar>)"
  define K where "K = (1 + roundoff) ^ 5 * Q"
  obtain S D L where
    S: "\<bar>S\<bar> \<le> (1 + roundoff) * \<bar>shallowFlat params\<bar>"
    and D: "\<bar>D\<bar> \<le> (1 + roundoff) * \<bar>deepFlat params\<bar>"
    and L: "L = max (fl 0.01) (fl (fl (?F - S) - D))"
    and c: "\<And>worldX. computeRectangleDepthAtX worldX params axisStartX axisEndX originX =
       (if max 0 (fl (worldX - originX)) \<le> S then - ?cs
        else if fl (?F - D) \<le> max 0 (fl (worldX - originX)) then - ?cd
        else - fl (?cs + fl (fl (fl (max 0 (fl (worldX - originX)) - S) / L) * fl (?cd - ?cs))))"
    by (rule compute_shape[of params axisEndX originX axisStartX]) blast
  have cs0: "0 \<le> ?cs" by simp
  have sd: "?cs \<le> ?cd" by simp
  have cd0: "0 \<le> ?cd" using cs0 sd by linarith
  have Q1: "1 \<le> Q" unfolding Q_def using roundoff_pos(1) by simp
  have K1: "1 \<le> K"
  proof -
    have "1 \<le> (1 + roundoff) ^ 5" using roundoff_pos(1) by (intro one_le_power) simp
    then have "1 * 1 \<le> (1 + roundoff) ^ 5 * Q"
      using Q1 roundoff_pos(1) by (intro mult_mono) simp_all
    then show ?thesis by (simp add: K_def)
  qed
  have "?cd * 1 \<le> ?cd * K" using K1 cd0 by (rule mult_left_mono)
  then have cdK: "?cd \<le> ?cd * K" by simp
  have "- (?cd * K) \<le> computeRectangleDepthAtX worldX params axisStartX axisEndX originX"
  proof (cases "?d \<le> S")
    case True
    then have "computeRectangleDepthAtX worldX params axisStartX axisEndX originX = - ?cs"
      by (simp only: c if_True)
    then show ?thesis using sd cdK by linarith
  next
    case nS: False
    show ?thesis
    proof (cases "fl (?F - D) \<le> ?d")
      case True
      then have "computeRectangleDepthAtX worldX params axisStartX axisEndX originX = - ?cd"
        using nS by (simp only: c if_True if_False)
      then show ?thesis using cdK by linarith
    next
      case False
      then have z: "computeRectangleDepthAtX worldX params axisStartX axisEndX originX
                      = - fl (?cs + fl (fl (fl (?d - S) / L) * fl (?cd - ?cs)))"
        using nS by (simp only: c if_False)
      have lo: "S < ?d" using nS by linarith
      have hi: "?d < fl (?F - D)" using False by linarith
      note tb = slope_param_bound[OF lo hi L S D]
      have "fl (?cs + fl (fl (fl (?d - S) / L) * fl (?cd - ?cs))) \<le> ?cd * ((1 + roundoff) ^ 5 * Q)"
        by (rule slope_value_le[OF cs0 sd tb(1) tb(2)[folded Q_def] Q1])
      then show ?thesis unfolding z K_def by (simp only: neg_le_iff_le)
    qed
  qed
  then show ?thesis unfolding K_def Q_def .
qed

subsection \<open>The profile of the specification\<close>

lemma compute_eq_spec:
  assumes "fl 0.01 \<le> fl (axisEnd - originX)"
  shows "computeRectangleDepthAtX worldX params axisStart axisEnd originX
           = depthAt_spec worldX params axisStart axisEnd originX"
proof -
  let ?room = "fl (fl (axisEnd - originX) - fl 0.01)"
  have "0 \<le> ?room" using assms by (intro fl_nonneg) simp
  then have m: "max 0 ?room = ?room" by simp
  show ?thesis
  proof (cases "fl (shallowFlat params + deepFlat params) > ?room")
    case True
    show ?thesis
      unfolding computeRectangleDepthAtX_def depthAt_spec_def Let_def or0_id dx_max m
      by (simp only: True if_True split_conv)
  next
    case False
    show ?thesis
      unfolding computeRectangleDepthAtX_def depthAt_spec_def Let_def or0_id dx_max m
      by (simp only: False if_False split_conv)
  qed
qed

lemma rectangle_floor_eq_compute:
  "rectangle_floor_z params worldX
     = computeRectangleDepthAtX worldX params (fl (- pool_length params / 2))
         (fl (pool_length params / 2)) (rectangle_floor_originX params)"
  by (simp only: rectangle_floor_z_def computeRectangleDepthAtX_def Let_def)

subsection \<open>Worked roundings\<close>

text \<open>The roundings that occur in the example computations below.\<close>

lemma example_roundings:
  "fl (5764607523034235 / 1152921504606846976) = 5764607523034235 / 1152921504606846976"
  "fl (1 / 100) = 5764607523034235 / 576460752303423488"
  "fl (5764607523034235 / 576460752303423488) = 5764607523034235 / 576460752303423488"
  "fl (45035996273705 / 4503599627370496) = 45035996273705 / 4503599627370496"
  "fl (180143985094821 / 18014398509481984) = 180143985094821 / 18014398509481984"
  "fl (6710363444782039 / 22517998136852480) = 5368290755825631 / 18014398509481984"
  "fl (3 / 10) = 5404319552844595 / 18014398509481984"
  "fl (16104872267476893 / 36028797018963968) = 4026218066869223 / 9007199254740992"
  "fl (457 / 1000) = 8232580118833267 / 18014398509481984"
  "fl (8232580118833267 / 18014398509481984) = 8232580118833267 / 18014398509481984"
  "fl (2058145029708317 / 4503599627370496) = 2058145029708317 / 4503599627370496"
  "fl (23 / 50) = 8286623314361713 / 18014398509481984"
  "fl (8286623314361713 / 18014398509481984) = 8286623314361713 / 18014398509481984"
  "fl (1 / 2) = 1 / 2"
  "fl (3 / 4) = 3 / 4"
  "fl 1 = 1"
  "fl (180143985094821 / 180143985094820) = 4503599627370521 / 4503599627370496"
  "fl (4503599627370521 / 4503599627370496) = 4503599627370521 / 4503599627370496"
  "fl (37578035290779417 / 36028797018963968) = 4697254411347427 / 4503599627370496"
  "fl (9484580815242265 / 9007199254740992) = 1185572601905283 / 1125899906842624"
  "fl (858926520932100997 / 576460752303423488) = 6710363444782039 / 4503599627370496"
  "fl (3 / 2) = 3 / 2"
  "fl 2 = 2"
  "fl (9007199254741017 / 4503599627370496) = 1125899906842627 / 562949953421312"
  "fl (27021597764222975 / 9007199254740992) = 3"
  "fl 5 = 5"
proof -
  show "fl (5764607523034235 / 1152921504606846976) = 5764607523034235 / 1152921504606846976"
    using fl_eqI[where e = "-60" and n = 5764607523034235 and x = "5764607523034235 / 1152921504606846976" and s = "1 / 2 ^ 60"]
    by (simp add: power_int_minus_divide)
  show "fl (1 / 100) = 5764607523034235 / 576460752303423488"
    using fl_eqI[where e = "-59" and n = 5764607523034235 and x = "1 / 100" and s = "1 / 2 ^ 59"]
    by (simp add: power_int_minus_divide)
  show "fl (5764607523034235 / 576460752303423488) = 5764607523034235 / 576460752303423488"
    using fl_eqI[where e = "-59" and n = 5764607523034235 and x = "5764607523034235 / 576460752303423488" and s = "1 / 2 ^ 59"]
    by (simp add: power_int_minus_divide)
  show "fl (45035996273705 / 4503599627370496) = 45035996273705 / 4503599627370496"
    using fl_eqI[where e = "-59" and n = 5764607523034240 and x = "45035996273705 / 4503599627370496" and s = "1 / 2 ^ 59"]
    by (simp add: power_int_minus_divide)
  show "fl (180143985094821 / 18014398509481984) = 180143985094821 / 18014398509481984"
    using fl_eqI[where e = "-59" and n = 5764607523034272 and x = "180143985094821 / 18014398509481984" and s = "1 / 2 ^ 59"]
    by (simp add: power_int_minus_divide)
  show "fl (6710363444782039 / 22517998136852480) = 5368290755825631 / 18014398509481984"
    using fl_eqI[where e = "-54" and n = 5368290755825631 and x = "6710363444782039 / 22517998136852480" and s = "1 / 2 ^ 54"]
    by (simp add: power_int_minus_divide)
  show "fl (3 / 10) = 5404319552844595 / 18014398509481984"
    using fl_eqI[where e = "-54" and n = 5404319552844595 and x = "3 / 10" and s = "1 / 2 ^ 54"]
    by (simp add: power_int_minus_divide)
  show "fl (16104872267476893 / 36028797018963968) = 4026218066869223 / 9007199254740992"
    using fl_eqI_tie[where e = "-54" and n = 8052436133738446 and x = "16104872267476893 / 36028797018963968" and s = "1 / 2 ^ 54"]
    by (simp add: power_int_minus_divide)
  show "fl (457 / 1000) = 8232580118833267 / 18014398509481984"
    using fl_eqI[where e = "-54" and n = 8232580118833267 and x = "457 / 1000" and s = "1 / 2 ^ 54"]
    by (simp add: power_int_minus_divide)
  show "fl (8232580118833267 / 18014398509481984) = 8232580118833267 / 18014398509481984"
    using fl_eqI[where e = "-54" and n = 8232580118833267 and x = "8232580118833267 / 18014398509481984" and s = "1 / 2 ^ 54"]
    by (simp add: power_int_minus_divide)
  show "fl (2058145029708317 / 4503599627370496) = 2058145029708317 / 4503599627370496"
    using fl_eqI[where e = "-54" and n = 8232580118833268 and x = "2058145029708317 / 4503599627370496" and s = "1 / 2 ^ 54"]
    by (simp add: power_int_minus_divide)
  show "fl (23 / 50) = 8286623314361713 / 18014398509481984"
    using fl_eqI[where e = "-54" and n = 8286623314361713 and x = "23 / 50" and s = "1 / 2 ^ 54"]
    by (simp add: power_int_minus_divide)
  show "fl (8286623314361713 / 18014398509481984) = 8286623314361713 / 18014398509481984"
    using fl_eqI[where e = "-54" and n = 8286623314361713 and x = "8286623314361713 / 18014398509481984" and s = "1 / 2 ^ 54"]
    by (simp add: power_int_minus_divide)
  show "fl (1 / 2) = 1 / 2"
    using fl_eqI[where e = "-53" and n = 4503599627370496 and x = "1 / 2" and s = "1 / 2 ^ 53"]
    by (simp add: power_int_minus_divide)
  show "fl (3 / 4) = 3 / 4"
    using fl_eqI[where e = "-53" and n = 6755399441055744 and x = "3 / 4" and s = "1 / 2 ^ 53"]
    by (simp add: power_int_minus_divide)
  show "fl 1 = 1"
    using fl_eqI[where e = "-52" and n = 4503599627370496 and x = "1" and s = "1 / 2 ^ 52"]
    by (simp add: power_int_minus_divide)
  show "fl (180143985094821 / 180143985094820) = 4503599627370521 / 4503599627370496"
    using fl_eqI[where e = "-52" and n = 4503599627370521 and x = "180143985094821 / 180143985094820" and s = "1 / 2 ^ 52"]
    by (simp add: power_int_minus_divide)
  show "fl (4503599627370521 / 4503599627370496) = 4503599627370521 / 4503599627370496"
    using fl_eqI[where e = "-52" and n = 4503599627370521 and x = "4503599627370521 / 4503599627370496" and s = "1 / 2 ^ 52"]
    by (simp add: power_int_minus_divide)
  show "fl (37578035290779417 / 36028797018963968) = 4697254411347427 / 4503599627370496"
    using fl_eqI[where e = "-52" and n = 4697254411347427 and x = "37578035290779417 / 36028797018963968" and s = "1 / 2 ^ 52"]
    by (simp add: power_int_minus_divide)
  show "fl (9484580815242265 / 9007199254740992) = 1185572601905283 / 1125899906842624"
    using fl_eqI_tie[where e = "-52" and n = 4742290407621132 and x = "9484580815242265 / 9007199254740992" and s = "1 / 2 ^ 52"]
    by (simp add: power_int_minus_divide)
  show "fl (858926520932100997 / 576460752303423488) = 6710363444782039 / 4503599627370496"
    using fl_eqI[where e = "-52" and n = 6710363444782039 and x = "858926520932100997 / 576460752303423488" and s = "1 / 2 ^ 52"]
    by (simp add: power_int_minus_divide)
  show "fl (3 / 2) = 3 / 2"
    using fl_eqI[where e = "-52" and n = 6755399441055744 and x = "3 / 2" and s = "1 / 2 ^ 52"]
    by (simp add: power_int_minus_divide)
  show "fl 2 = 2"
    using fl_eqI[where e = "-51" and n = 4503599627370496 and x = "2" and s = "1 / 2 ^ 51"]
    by (simp add: power_int_minus_divide)
  show "fl (9007199254741017 / 4503599627370496) = 1125899906842627 / 562949953421312"
    using fl_eqI_tie[where e = "-51" and n = 4503599627370508 and x = "9007199254741017 / 4503599627370496" and s = "1 / 2 ^ 51"]
    by (simp add: power_int_minus_divide)
  show "fl (27021597764222975 / 9007199254740992) = 3"
    using fl_eqI[where e = "-51" and n = 6755399441055744 and x = "27021597764222975 / 9007199254740992" and s = "1 / 2 ^ 51"]
    by (simp add: power_int_minus_divide)
  show "fl 5 = 5"
    using fl_eqI[where e = "-50" and n = 5629499534213120 and x = "5" and s = "1 / 2 ^ 50"]
    by (simp add: power_int_minus_divide)
qed


lemma short_pool_depths:
  "computeRectangleDepthAtX 0 short_pool_params 0 1.5 0 = - 1"
  "computeRectangleDepthAtX (fl 0.457) short_pool_params 0 1.5 0
     = - (1125899906842627 / 562949953421312)"
  "computeRectangleDepthAtX (fl 0.46) short_pool_params 0 1.5 0 = - 2"
  by (simp_all add: computeRectangleDepthAtX_def short_pool_params_def or0_def Let_def
      example_roundings fl_zero)

lemma no_room_depths:
  "rectangle_floor_originX no_room_params = 1.5"
  "computeRectangleDepthAtX 1.5 no_room_params (- 1.5) 1.5 1.5 = - 1"
  "depthAt_spec 1.5 no_room_params (- 1.5) 1.5 1.5 = - 1.5"
  "rectangle_floor_z no_room_params 1.5 = - 1"
  by (simp_all add: computeRectangleDepthAtX_def depthAt_spec_def rectangle_floor_originX_def
      rectangle_floor_z_def no_room_params_def STEP_LENGTH_def or0_def Let_def
      example_roundings fl_zero fl_minus)

subsection \<open>Claims about the depth profiler\<close>

text \<open>
  Claim C1, as the code has it.  Whenever at least the reserved centimetre is left
  (\<open>fullLen \<ge> 0.01\<close>), the depth profiler \<open>computeRectangleDepthAtX\<close>, and likewise the
  floor loop of the rectangle builder, return what the piecewise definition of the
  specification returns: with \<open>shallow' = max(0.5, shallow)\<close>,
  \<open>deep' = max(shallow', deep)\<close>, \<open>fullLen = axisEnd - originX\<close> and
  \<open>dx = max(0, worldX - originX)\<close>, the result is \<open>-shallow'\<close> for \<open>dx \<le> sFlat\<close>, \<open>-deep'\<close>
  for \<open>dx \<ge> fullLen - dFlat\<close>, and the interpolation in between.  For a shallow depth
  that is a double, the result does not increase from \<open>x1\<close> to \<open>x2 \<ge> x1\<close> unless \<open>x2\<close>
  has reached the deep flat, where the result is exactly \<open>-deep'\<close>: the profile is
  monotonic non-increasing along the shallow flat and the slope.  And \<open>shallow' \<le> deep'\<close>
  whatever the input depths are.
\<close>

theorem depth_profiler_refines_spec:
  "(fl 0.01 \<le> fl (axisEnd - originX) \<longrightarrow>
      computeRectangleDepthAtX worldX params axisStart axisEnd originX
        = depthAt_spec worldX params axisStart axisEnd originX)
   \<and> (fl 0.01 \<le> fl (fl (pool_length params / 2) - rectangle_floor_originX params) \<longrightarrow>
      rectangle_floor_z params worldX
        = depthAt_spec worldX params (fl (- pool_length params / 2))
            (fl (pool_length params / 2)) (rectangle_floor_originX params))
   \<and> (is_double (shallow params) \<longrightarrow>
        (\<forall>x1 x2. x1 \<le> x2 \<longrightarrow>
           computeRectangleDepthAtX x2 params axisStart axisEnd originX
             \<le> computeRectangleDepthAtX x1 params axisStart axisEnd originX
           \<or> computeRectangleDepthAtX x2 params axisStart axisEnd originX
               = - max (max 0.5 (shallow params)) (deep params)))
   \<and> max 0.5 (shallow params) \<le> max (max 0.5 (shallow params)) (deep params)"
proof (intro conjI allI impI)
  assume "fl 0.01 \<le> fl (axisEnd - originX)"
  then show "computeRectangleDepthAtX worldX params axisStart axisEnd originX
          = depthAt_spec worldX params axisStart axisEnd originX"
    by (rule compute_eq_spec)
next
  assume "fl 0.01 \<le> fl (fl (pool_length params / 2) - rectangle_floor_originX params)"
  then show "rectangle_floor_z params worldX
          = depthAt_spec worldX params (fl (- pool_length params / 2))
              (fl (pool_length params / 2)) (rectangle_floor_originX params)"
    unfolding rectangle_floor_eq_compute by (rule compute_eq_spec)
next
  fix x1 x2 :: real
  assume "is_double (shallow params)" "x1 \<le> x2"
  then show "computeRectangleDepthAtX x2 params axisStart axisEnd originX
             \<le> computeRectangleDepthAtX x1 params axisStart axisEnd originX
           \<or> computeRectangleDepthAtX x2 params axisStart axisEnd originX
               = - max (max 0.5 (shallow params)) (deep params)"
    by (rule compute_mono)
next
  show "max 0.5 (shallow params) \<le> max (max 0.5 (shallow params)) (deep params)"
    by simp
qed

theorem depth_profiler_refines_spec_witness:
  "fl 0.01 \<le> fl (1.5 - 0)
   \<and> fl 0.01 \<le> fl (fl (pool_length short_pool_params / 2)
                      - rectangle_floor_originX short_pool_params)
   \<and> is_double (shallow short_pool_params)
   \<and> 0 \<le> fl 0.457
   \<and> computeRectangleDepthAtX (fl 0.457) short_pool_params 0 1.5 0
       = depthAt_spec (fl 0.457) short_pool_params 0 1.5 0
   \<and> rectangle_floor_z short_pool_params (fl 0.457)
       = depthAt_spec (fl 0.457) short_pool_params (fl (- pool_length short_pool_params / 2))
           (fl (pool_length short_pool_params / 2)) (rectangle_floor_originX short_pool_params)
   \<and> computeRectangleDepthAtX (fl 0.457) short_pool_params 0 1.5 0
       \<le> computeRectangleDepthAtX 0 short_pool_params 0 1.5 0"
proof -
  have h1: "fl 0.01 \<le> fl (1.5 - 0)" by (simp add: example_roundings)
  have h2: "fl 0.01 \<le> fl (fl (pool_length short_pool_params / 2)
                      - rectangle_floor_originX short_pool_params)"
    by (simp add: short_pool_params_def rectangle_floor_originX_def example_roundings fl_minus)
  have h3: "is_double (shallow short_pool_params)"
    by (simp add: is_double_def short_pool_params_def example_roundings)
  have h4: "0 \<le> fl 0.457" by (simp add: example_roundings)
  note t = depth_profiler_refines_spec[where axisEnd = "1.5" and originX = 0
      and params = short_pool_params and worldX = "fl 0.457" and axisStart = 0]
  from t h1 have a: "computeRectangleDepthAtX (fl 0.457) short_pool_params 0 1.5 0
       = depthAt_spec (fl 0.457) short_pool_params 0 1.5 0"
    by blast
  from t h2 have b: "rectangle_floor_z short_pool_params (fl 0.457)
       = depthAt_spec (fl 0.457) short_pool_params (fl (- pool_length short_pool_params / 2))
           (fl (pool_length short_pool_params / 2)) (rectangle_floor_originX short_pool_params)"
    by blast
  from t h3 h4 have "computeRectangleDepthAtX (fl 0.457) short_pool_params 0 1.5 0
             \<le> computeRectangleDepthAtX 0 short_pool_params 0 1.5 0
           \<or> computeRectangleDepthAtX (fl 0.457) short_pool_params 0 1.5 0
               = - max (max 0.5 (shallow short_pool_params)) (deep short_pool_params)"
    by blast
  then have c: "computeRectangleDepthAtX (fl 0.457) short_pool_params 0 1.5 0
       \<le> computeRectangleDepthAtX 0 short_pool_params 0 1.5 0"
    unfolding short_pool_depths by (simp add: short_pool_params_def)
  from h1 h2 h3 h4 a b c show ?thesis by blast
qed

text \<open>
  The claim as stated fails in two places.  When less than the reserved centimetre is
  left, the code clamps the room for the flats at zero (\<open>Math.max(0, fullLen - 0.01)\<close>),
  which the definition of the specification does not: in the 3 m pool whose ten steps
  leave \<open>fullLen = 0\<close> the code returns \<open>-1\<close> at the deep wall and the definition
  \<open>-1.5\<close>.  And on arrival at the deep flat the profile can rise: in the 1.5 m pool the
  depth at \<open>x = 0.457\<close> is \<open>-2.0000000000000053\<close>, and \<open>-2\<close> at \<open>x = 0.46\<close>.
\<close>

theorem depth_profile_counterexample:
  "fl (1.5 - 1.5) < fl 0.01
   \<and> computeRectangleDepthAtX 1.5 no_room_params (- 1.5) 1.5 1.5 = - 1
   \<and> depthAt_spec 1.5 no_room_params (- 1.5) 1.5 1.5 = - 1.5
   \<and> rectangle_floor_originX no_room_params = 1.5
   \<and> rectangle_floor_z no_room_params 1.5 = - 1
   \<and> fl 0.457 \<le> fl 0.46
   \<and> computeRectangleDepthAtX (fl 0.457) short_pool_params 0 1.5 0
       < computeRectangleDepthAtX (fl 0.46) short_pool_params 0 1.5 0"
  unfolding no_room_depths short_pool_depths
  by (simp add: example_roundings fl_zero)

text \<open>
  Claim C10, as the code has it.  For every input the depth returned by
  \<open>computeRectangleDepthAtX\<close> is at most \<open>-max(0.5, shallow)\<close> (for a shallow depth that is
  a double), and it is at least \<open>-deep'\<close> up to rounding:
  \<open>z \<ge> -deep' (1 + u)^5 (1 + 400 u (|fullLen| + |shallowFlat| + |deepFlat|))\<close> with
  \<open>deep' = max(max(0.5, shallow), deep)\<close> and the unit roundoff \<open>u = 2^-53\<close>.  No
  assumption is made on the flat runs, on the sign of \<open>fullLen\<close> or on the position of
  \<open>worldX\<close> relative to the axis.
\<close>

theorem depth_within_rounded_range:
  "- (max (max 0.5 (shallow params)) (deep params)
        * ((1 + roundoff) ^ 5
           * (1 + 400 * roundoff
                  * (\<bar>fl (axisEnd - originX)\<bar> + \<bar>shallowFlat params\<bar> + \<bar>deepFlat params\<bar>))))
     \<le> computeRectangleDepthAtX worldX params axisStart axisEnd originX
   \<and> (is_double (shallow params) \<longrightarrow>
        computeRectangleDepthAtX worldX params axisStart axisEnd originX
          \<le> - max 0.5 (shallow params))"
  using compute_lower[of params axisEnd originX worldX axisStart]
    compute_upper[of params worldX axisStart axisEnd originX]
  by blast

theorem depth_within_rounded_range_witness:
  "is_double (shallow short_pool_params)
   \<and> - (2 * ((1 + roundoff) ^ 5 * (1 + 400 * roundoff * (1.5 + 1.5 + 3.5))))
       \<le> computeRectangleDepthAtX (fl 0.457) short_pool_params 0 1.5 0
   \<and> computeRectangleDepthAtX (fl 0.457) short_pool_params 0 1.5 0 \<le> - 1"
proof -
  have h: "is_double (shallow short_pool_params)"
    by (simp add: is_double_def short_pool_params_def example_roundings)
  note t = depth_within_rounded_range[where axisEnd = "1.5" and originX = 0
      and params = short_pool_params and worldX = "fl 0.457" and axisStart = 0]
  from t have "- (max (max 0.5 (shallow short_pool_params)) (deep short_pool_params)
        * ((1 + roundoff) ^ 5
           * (1 + 400 * roundoff
                  * (\<bar>fl (1.5 - 0)\<bar> + \<bar>shallowFlat short_pool_params\<bar>
                     + \<bar>deepFlat short_pool_params\<bar>))))
     \<le> computeRectangleDepthAtX (fl 0.457) short_pool_params 0 1.5 0"
    by blast
  then have a: "- (2 * ((1 + roundoff) ^ 5 * (1 + 400 * roundoff * (1.5 + 1.5 + 3.5))))
       \<le> computeRectangleDepthAtX (fl 0.457) short_pool_params 0 1.5 0"
    by (simp add: short_pool_params_def example_roundings)
  from t h have "computeRectangleDepthAtX (fl 0.457) short_pool_params 0 1.5 0
          \<le> - max 0.5 (shallow short_pool_params)"
    by blast
  then have b: "computeRectangleDepthAtX (fl 0.457) short_pool_params 0 1.5 0 \<le> - 1"
    by (simp add: short_pool_params_def)
  from h a b show ?thesis by blast
qed

text \<open>
  The lower bound of the claim as stated fails by rounding: in the 1.5 m pool with
  clamped deep depth 2, the slope value at \<open>x = 0.457\<close> is
  \<open>-2.0000000000000053 = -(2 + 12 * 2^-51)\<close>.
\<close>

theorem depth_below_clamped_deep_counterexample:
  "is_double (fl 0.457)
   \<and> computeRectangleDepthAtX (fl 0.457) short_pool_params 0 1.5 0
       = - (1125899906842627 / 562949953421312)
   \<and> max (max 0.5 (shallow short_pool_params)) (deep short_pool_params) = 2
   \<and> computeRectangleDepthAtX (fl 0.457) short_pool_params 0 1.5 0
       < - max (max 0.5 (shallow short_pool_params)) (deep short_pool_params)"
  unfolding short_pool_depths
  by (simp add: is_double_def example_roundings short_pool_params_def)

subsection \<open>Flat-run clamping\<close>





section \<open>Properties of the editable polygon\<close>

lemma splice_start_less: "splice_start i n < n \<longleftrightarrow> i < int n \<and> 0 < n"
  by (auto simp: splice_start_def)

lemma length_splice_insert: "length (splice_insert xs i v) = Suc (length xs)"
  by (simp add: splice_insert_def Let_def splice_start_def)

lemma length_splice_delete1:
  "length (splice_delete1 xs i) = (if i < int (length xs) then length xs - 1 else length xs)"
  by (auto simp: splice_delete1_def Let_def splice_start_def)

lemma deleteVertex_refused:
  assumes "length (vertices p) \<le> (if minVertices p = 0 then 3 else minVertices p)"
  shows "deleteVertex p i = (False, p)"
  using assms by (simp add: deleteVertex_def)

lemma deleteVertex_done:
  assumes "\<not> length (vertices p) \<le> (if minVertices p = 0 then 3 else minVertices p)"
  shows "deleteVertex p i =
           (True, emitChange (p\<lparr>vertices := splice_delete1 (vertices p) i,
                                edges := splice_delete1 (edges p) i\<rparr>))"
  using assms by (simp add: deleteVertex_def)

lemma splice_start_index: "0 \<le> i \<Longrightarrow> i < int n \<Longrightarrow> splice_start i n = nat i"
  by (auto simp: splice_start_def)

text \<open>
  Claim C8.  In a polygon with a positive vertex floor and as many edges as vertices,
  \<open>deleteVertex(i)\<close> at or below the floor returns \<open>false\<close> and leaves the whole object
  as it is: the vertices and the edges are unchanged, no notification is emitted, and
  nothing is thrown (the function is total).  Above the floor, for the index \<open>i\<close> of a
  vertex, it returns \<open>true\<close> and removes the vertex at position \<open>i\<close> and the edge at the
  same position, so that exactly one vertex and one edge less remain.
\<close>

theorem deleteVertex_respects_floor:
  assumes "0 < minVertices p"
    and "length (edges p) = length (vertices p)"
  shows "(length (vertices p) \<le> minVertices p \<longrightarrow> deleteVertex p i = (False, p))
       \<and> (minVertices p < length (vertices p) \<and> 0 \<le> i \<and> i < int (length (vertices p)) \<longrightarrow>
            fst (deleteVertex p i) = True
          \<and> vertices (snd (deleteVertex p i))
              = take (nat i) (vertices p) @ drop (Suc (nat i)) (vertices p)
          \<and> edges (snd (deleteVertex p i))
              = take (nat i) (edges p) @ drop (Suc (nat i)) (edges p)
          \<and> length (vertices (snd (deleteVertex p i))) = length (vertices p) - 1
          \<and> length (edges (snd (deleteVertex p i))) = length (edges p) - 1
          \<and> emitted (snd (deleteVertex p i)) = Suc (emitted p))"
proof (intro conjI impI)
  assume "length (vertices p) \<le> minVertices p"
  then show "deleteVertex p i = (False, p)"
    using assms(1) by (intro deleteVertex_refused) simp
next
  assume a: "minVertices p < length (vertices p) \<and> 0 \<le> i \<and> i < int (length (vertices p))"
  then have above: "\<not> length (vertices p) \<le> (if minVertices p = 0 then 3 else minVertices p)"
    using assms(1) by simp
  note dv = deleteVertex_done[OF above, of i]
  have k: "splice_start i (length (vertices p)) = nat i"
    using a by (intro splice_start_index) simp_all
  have ke: "splice_start i (length (edges p)) = nat i"
    unfolding assms(2) by (rule k)
  show "fst (deleteVertex p i) = True" by (simp add: dv)
  show "vertices (snd (deleteVertex p i))
          = take (nat i) (vertices p) @ drop (Suc (nat i)) (vertices p)"
    by (simp add: dv emitChange_def splice_delete1_def Let_def k)
  show "edges (snd (deleteVertex p i))
          = take (nat i) (edges p) @ drop (Suc (nat i)) (edges p)"
    by (simp add: dv emitChange_def splice_delete1_def Let_def ke)
  show "length (vertices (snd (deleteVertex p i))) = length (vertices p) - 1"
    using a by (simp add: dv emitChange_def length_splice_delete1)
  show "length (edges (snd (deleteVertex p i))) = length (edges p) - 1"
    using a by (simp add: dv emitChange_def length_splice_delete1 assms(2))
  show "emitted (snd (deleteVertex p i)) = Suc (emitted p)"
    by (simp add: dv emitChange_def)
qed

theorem deleteVertex_respects_floor_witness:
  "0 < minVertices pentagon
   \<and> length (edges pentagon) = length (vertices pentagon)
   \<and> (0::int) \<le> 1
   \<and> (1::int) < int (length (vertices pentagon))
   \<and> minVertices pentagon < length (vertices pentagon)
   \<and> fst (deleteVertex pentagon 1) = True
   \<and> vertices (snd (deleteVertex pentagon 1)) = [(0, 0), (5, 3), (2, 5), (-1, 3)]
   \<and> length (edges (snd (deleteVertex pentagon 1))) = 4
   \<and> length (vertices (setFromRectangle pentagon 8 4)) \<le> minVertices (setFromRectangle pentagon 8 4)
   \<and> deleteVertex (setFromRectangle pentagon 8 4) 1 = (False, setFromRectangle pentagon 8 4)"
proof -
  have h0: "(0::int) \<le> 1" by simp
  have h1: "0 < minVertices pentagon"
    and h2: "length (edges pentagon) = length (vertices pentagon)"
    and h3: "minVertices pentagon < length (vertices pentagon)"
    and h4: "(1::int) < int (length (vertices pentagon))"
    by (simp_all add: pentagon_def new_polygon_def)
  have r1: "0 < minVertices (setFromRectangle pentagon 8 4)"
    and r2: "length (edges (setFromRectangle pentagon 8 4))
               = length (vertices (setFromRectangle pentagon 8 4))"
    and r3: "length (vertices (setFromRectangle pentagon 8 4))
               \<le> minVertices (setFromRectangle pentagon 8 4)"
    by (simp_all add: setFromRectangle_def emitChange_def)
  from deleteVertex_respects_floor[OF h1 h2, of 1] h0 h3 h4
  have a: "fst (deleteVertex pentagon 1) = True"
    and b: "vertices (snd (deleteVertex pentagon 1))
              = take (nat 1) (vertices pentagon) @ drop (Suc (nat 1)) (vertices pentagon)"
    and c: "length (edges (snd (deleteVertex pentagon 1))) = length (edges pentagon) - 1"
    by blast+
  from deleteVertex_respects_floor[OF r1 r2, of 1] r3
  have d: "deleteVertex (setFromRectangle pentagon 8 4) 1 = (False, setFromRectangle pentagon 8 4)"
    by blast
  have b': "vertices (snd (deleteVertex pentagon 1)) = [(0, 0), (5, 3), (2, 5), (-1, 3)]"
    unfolding b by (simp add: pentagon_def new_polygon_def)
  have c': "length (edges (snd (deleteVertex pentagon 1))) = 4"
    unfolding c by (simp add: pentagon_def new_polygon_def)
  from h0 h1 h2 h3 h4 a b' c' r3 d show ?thesis by blast
qed

subsection \<open>The invariant under the operations\<close>

lemma poly_inv_moveVertex: "poly_inv p \<Longrightarrow> poly_inv (moveVertex p i pos)"
  by (simp add: moveVertex_def poly_inv_def emitChange_def split: option.splits)

lemma poly_inv_addVertexAtEdge: "poly_inv p \<Longrightarrow> poly_inv (snd (addVertexAtEdge p i pos))"
  by (simp add: addVertexAtEdge_def Let_def poly_inv_def emitChange_def length_splice_insert)

lemma poly_inv_deleteVertex:
  assumes "poly_inv p"
  shows "poly_inv (snd (deleteVertex p i))"
proof (cases "length (vertices p) \<le> (if minVertices p = 0 then 3 else minVertices p)")
  case True
  then show ?thesis using assms by (simp add: deleteVertex_refused)
next
  case False
  then have "minVertices p \<le> length (vertices p) - 1" by (simp split: if_splits)
  with assms show ?thesis
    by (simp add: deleteVertex_done[OF False] poly_inv_def emitChange_def length_splice_delete1)
qed

lemma js_nth_Some_iff: "(\<exists>x. js_nth xs i = Some x) \<longleftrightarrow> 0 \<le> i \<and> i < int (length xs)"
  by (simp add: js_nth_def)

lemma toggleEdgeCurved_total:
  assumes "poly_inv p"
  shows "\<exists>p'. toggleEdgeCurved p i = Inr p' \<and> poly_inv p'"
proof (cases "js_nth (edges p) i")
  case None
  then show ?thesis using assms by (simp add: toggleEdgeCurved_def)
next
  case (Some e)
  then have rng: "0 \<le> i" "i < int (length (edges p))"
    by (simp_all add: js_nth_def split: if_splits)
  have len: "length (edges p) = length (vertices p)" using assms by (simp add: poly_inv_def)
  have ne: "vertices p \<noteq> []" using rng len by auto
  have n0: "0 < int (length (vertices p))" using ne by simp
  obtain v1 where v1: "js_nth (vertices p) i = Some v1"
    using rng len by (simp add: js_nth_def)
  have "0 \<le> nextIndex p i" "nextIndex p i < int (length (vertices p))"
    unfolding nextIndex_def using n0 by simp_all
  then obtain v2 where v2: "js_nth (vertices p) (nextIndex p i) = Some v2"
    by (simp add: js_nth_def)
  show ?thesis
    using assms Some v1 v2 ne
    by (simp add: toggleEdgeCurved_def Let_def poly_inv_def emitChange_def)
qed

lemma poly_inv_moveCurveControl: "poly_inv p \<Longrightarrow> poly_inv (moveCurveControl p i pos)"
  by (simp add: moveCurveControl_def Let_def poly_inv_def emitChange_def split: option.splits)

lemma poly_inv_setFromRectangle: "poly_inv (setFromRectangle p l w)"
  by (simp add: setFromRectangle_def poly_inv_def emitChange_def)

lemma poly_inv_setFromOval: "3 \<le> n \<Longrightarrow> poly_inv (setFromOval p l w n)"
  by (simp add: setFromOval_def Let_def poly_inv_def emitChange_def)

lemma poly_inv_rescaleTo:
  assumes "poly_inv p"
  shows "poly_inv (rescaleTo p l w)"
proof (cases "isRectangular p")
  case True
  then show ?thesis by (simp add: rescaleTo_def poly_inv_setFromRectangle)
next
  case False
  show ?thesis
  proof (cases "vertices p")
    case Nil
    then show ?thesis using assms False by (simp add: rescaleTo_def)
  next
    case (Cons v vs)
    have "length (vertices (rescaleTo p l w)) = length (vertices p)"
      "edges (rescaleTo p l w) = edges p" "minVertices (rescaleTo p l w) = minVertices p"
      using False Cons by (simp_all add: rescaleTo_def Let_def emitChange_def)
    then show ?thesis using assms by (simp add: poly_inv_def)
  qed
qed

text \<open>
  Claim C9, as the code has it.  Every polygon operation, applied to a polygon with
  \<open>edges.length = vertices.length\<close> and at least \<open>minVertices\<close> vertices, returns
  normally and yields a polygon with the same two properties, where \<open>setFromOval\<close> is
  called with at least three segments (its default is 24).
\<close>

theorem operations_preserve_invariant:
  assumes "poly_inv p" and "op_admissible op"
  shows "\<exists>p'. apply_op p op = Inr p' \<and> poly_inv p'"
proof (cases op)
  case (MoveVertex i pos)
  then show ?thesis using assms(1) by (simp add: poly_inv_moveVertex)
next
  case (AddVertexAtEdge i pos)
  then show ?thesis using assms(1) by (simp add: poly_inv_addVertexAtEdge)
next
  case (DeleteVertex i)
  then show ?thesis using assms(1) by (simp add: poly_inv_deleteVertex)
next
  case (ToggleEdgeCurved i)
  then show ?thesis using toggleEdgeCurved_total[OF assms(1)] by simp
next
  case (MoveCurveControl i pos)
  then show ?thesis using assms(1) by (simp add: poly_inv_moveCurveControl)
next
  case (RescaleTo l w)
  then show ?thesis using assms(1) by (simp add: poly_inv_rescaleTo)
next
  case (SetFromRectangle l w)
  then show ?thesis by (simp add: poly_inv_setFromRectangle)
next
  case (SetFromOval l w n)
  then show ?thesis using assms(2) by (simp add: poly_inv_setFromOval)
qed

theorem operations_preserve_invariant_witness:
  "poly_inv pentagon \<and> op_admissible (SetFromOval 10 5 24)
   \<and> poly_inv (setFromOval pentagon 10 5 24)
   \<and> length (vertices (setFromOval pentagon 10 5 24)) = 24
   \<and> length (edges (setFromOval pentagon 10 5 24)) = 24"
proof -
  have h1: "poly_inv pentagon" by (simp add: poly_inv_def pentagon_def new_polygon_def)
  have h2: "op_admissible (SetFromOval 10 5 24)" by simp
  from operations_preserve_invariant[OF h1 h2]
  have "poly_inv (setFromOval pentagon 10 5 24)" by simp
  with h1 h2 show ?thesis by (simp add: setFromOval_def Let_def emitChange_def)
qed

text \<open>
  With fewer than three segments \<open>setFromOval\<close> leaves fewer vertices than the floor
  it sets.
\<close>

theorem setFromOval_two_segments_counterexample:
  "poly_inv pentagon
   \<and> length (vertices (setFromOval pentagon 10 5 2)) = 2
   \<and> minVertices (setFromOval pentagon 10 5 2) = 3
   \<and> \<not> poly_inv (setFromOval pentagon 10 5 2)"
  by (simp add: poly_inv_def pentagon_def new_polygon_def setFromOval_def Let_def emitChange_def)

section \<open>Properties of the assembled steps and walls\<close>

lemma hypot_axis: "hypot a 0 = \<bar>a\<bar>" "hypot 0 b = \<bar>b\<bar>"
  by (simp_all add: hypot_def)

lemma new_box_extent:
  "box_top (new_box w h d x y z bh) = z + d / 2"
  "box_bottom (new_box w h d x y z bh) = z - d / 2"
  "box_height (new_box w h d x y z bh) = d"
  "pos_z (new_box w h d x y z bh) = z"
  by (simp_all add: new_box_def box_top_def box_bottom_def box_height_def)

subsection \<open>Steps\<close>

lemma step_run_length:
  "1 \<le> n \<Longrightarrow> length (step_run sd sh x0 y0 w n) = nat n"
  by (simp add: step_run_def)

lemma step_run_nth:
  assumes "1 \<le> n" "int k < n"
  shows "step_run sd sh x0 y0 w n ! k = step_box sd sh x0 y0 w n (int k)"
proof -
  have "k < length [0..n - 1]" using assms by simp
  moreover have "[0..n - 1] ! k = int k" using assms by (simp add: nth_upto)
  ultimately show ?thesis using assms(1) by (simp add: step_run_def)
qed

lemma step_run_last:
  assumes "1 \<le> n"
  shows "last (step_run sd sh x0 y0 w n) = step_box sd sh x0 y0 w n (n - 1)"
proof -
  have ne: "step_run sd sh x0 y0 w n \<noteq> []" using assms by (simp add: step_run_def)
  have len: "length (step_run sd sh x0 y0 w n) = nat n" by (rule step_run_length[OF assms])
  have "last (step_run sd sh x0 y0 w n) = step_run sd sh x0 y0 w n ! (nat n - 1)"
    using ne len by (simp add: last_conv_nth)
  also have "\<dots> = step_box sd sh x0 y0 w n (int (nat n - 1))"
    using assms by (intro step_run_nth) auto
  also have "int (nat n - 1) = n - 1" using assms by simp
  finally show ?thesis .
qed

lemma step_box_inner_height:
  "s \<noteq> n - 1 \<Longrightarrow> box_height (step_box sd sh x0 y0 w n s) = sd"
  by (simp add: step_box_def Let_def new_box_extent)

lemma step_box_final_height:
  "box_height (step_box sd sh x0 y0 w n (n - 1))
     = max 0.05 (sh - 0.25 - sd * of_int (n - 1))"
  by (simp add: step_box_def Let_def new_box_extent STEP_TOP_OFFSET_def max_def)

lemma step_box_final_bottom:
  "box_bottom (step_box sd sh x0 y0 w n (n - 1)) = - sh"
  by (simp add: step_box_def Let_def new_box_extent)

lemma step_run_shape:
  assumes "1 \<le> n"
  shows "length (step_run sd sh x0 y0 w n) = nat n
       \<and> (\<forall>k. int k < n - 1 \<longrightarrow> box_height (step_run sd sh x0 y0 w n ! k) = sd)
       \<and> box_height (last (step_run sd sh x0 y0 w n))
           = max 0.05 (sh - 0.25 - sd * of_int (n - 1))
       \<and> box_bottom (last (step_run sd sh x0 y0 w n)) = - sh"
proof (intro conjI allI impI)
  show "length (step_run sd sh x0 y0 w n) = nat n" by (rule step_run_length[OF assms])
  show "box_height (step_run sd sh x0 y0 w n ! k) = sd" if "int k < n - 1" for k
  proof -
    have "int k < n" "int k \<noteq> n - 1" using that by simp_all
    then show ?thesis by (simp add: step_run_nth[OF assms] step_box_inner_height)
  qed
  show "box_height (last (step_run sd sh x0 y0 w n))
          = max 0.05 (sh - 0.25 - sd * of_int (n - 1))"
    by (simp only: step_run_last[OF assms] step_box_final_height)
  show "box_bottom (last (step_run sd sh x0 y0 w n)) = - sh"
    by (simp only: step_run_last[OF assms] step_box_final_bottom)
qed

text \<open>
  Claim C5, as the code has it.  In every builder, for a step count of at least one: there are
  \<open>stepCount\<close> steps, every step but the last has height \<open>stepDepth\<close>, the last has
  height \<open>max(0.05, max(0.5, shallow) - 0.25 - stepDepth (stepCount - 1))\<close>, and the
  bottom plane of the last step is at \<open>z = -max(0.5, shallow)\<close>.  Here \<open>stepCount\<close> and
  \<open>stepDepth\<close> are the builder's variables of these names: the parameters themselves in
  the rectangle, oval, L-shape and kidney builders, and
  \<open>Math.max(0, params.stepCount | 0)\<close> and \<open>Math.max(0.01, params.stepDepth ?? 0.2)\<close> in
  \<open>PoolBuilder.build\<close>.
\<close>

theorem final_step_lands_on_shelf:
  "(1 \<le> stepCount params \<longrightarrow>
      length (rectangle_steps params) = nat (stepCount params)
    \<and> (\<forall>k. int k < stepCount params - 1 \<longrightarrow>
          box_height (rectangle_steps params ! k) = stepDepth params)
    \<and> box_height (last (rectangle_steps params))
        = max 0.05 (max 0.5 (shallow params) - 0.25
                     - stepDepth params * of_int (stepCount params - 1))
    \<and> box_bottom (last (rectangle_steps params)) = - max 0.5 (shallow params))
   \<and> (1 \<le> stepCount params \<longrightarrow>
      length (bbox_steps params wallMinX stepWidth) = nat (stepCount params)
    \<and> (\<forall>k. int k < stepCount params - 1 \<longrightarrow>
          box_height (bbox_steps params wallMinX stepWidth ! k) = stepDepth params)
    \<and> box_height (last (bbox_steps params wallMinX stepWidth))
        = max 0.05 (max 0.5 (shallow params) - 0.25
                     - stepDepth params * of_int (stepCount params - 1))
    \<and> box_bottom (last (bbox_steps params wallMinX stepWidth)) = - max 0.5 (shallow params))
   \<and> (1 \<le> builder_stepCount params \<longrightarrow>
      length (builder_steps params cx cy bbLen bbWid) = nat (builder_stepCount params)
    \<and> (\<forall>k. int k < builder_stepCount params - 1 \<longrightarrow>
          box_height (builder_steps params cx cy bbLen bbWid ! k) = builder_stepDepth params)
    \<and> box_height (last (builder_steps params cx cy bbLen bbWid))
        = max 0.05 (max 0.5 (shallow params) - 0.25
                     - builder_stepDepth params * of_int (builder_stepCount params - 1))
    \<and> box_bottom (last (builder_steps params cx cy bbLen bbWid))
        = - max 0.5 (shallow params))"
proof (intro conjI)
  show "1 \<le> stepCount params \<longrightarrow>
      length (rectangle_steps params) = nat (stepCount params)
    \<and> (\<forall>k. int k < stepCount params - 1 \<longrightarrow>
          box_height (rectangle_steps params ! k) = stepDepth params)
    \<and> box_height (last (rectangle_steps params))
        = max 0.05 (max 0.5 (shallow params) - 0.25
                     - stepDepth params * of_int (stepCount params - 1))
    \<and> box_bottom (last (rectangle_steps params)) = - max 0.5 (shallow params)"
    unfolding rectangle_steps_def by (intro impI step_run_shape)
  show "1 \<le> stepCount params \<longrightarrow>
      length (bbox_steps params wallMinX stepWidth) = nat (stepCount params)
    \<and> (\<forall>k. int k < stepCount params - 1 \<longrightarrow>
          box_height (bbox_steps params wallMinX stepWidth ! k) = stepDepth params)
    \<and> box_height (last (bbox_steps params wallMinX stepWidth))
        = max 0.05 (max 0.5 (shallow params) - 0.25
                     - stepDepth params * of_int (stepCount params - 1))
    \<and> box_bottom (last (bbox_steps params wallMinX stepWidth)) = - max 0.5 (shallow params)"
    unfolding bbox_steps_def by (intro impI step_run_shape)
  show "1 \<le> builder_stepCount params \<longrightarrow>
      length (builder_steps params cx cy bbLen bbWid) = nat (builder_stepCount params)
    \<and> (\<forall>k. int k < builder_stepCount params - 1 \<longrightarrow>
          box_height (builder_steps params cx cy bbLen bbWid ! k) = builder_stepDepth params)
    \<and> box_height (last (builder_steps params cx cy bbLen bbWid))
        = max 0.05 (max 0.5 (shallow params) - 0.25
                     - builder_stepDepth params * of_int (builder_stepCount params - 1))
    \<and> box_bottom (last (builder_steps params cx cy bbLen bbWid))
        = - max 0.5 (shallow params)"
    unfolding builder_steps_def Let_def by (intro impI step_run_shape)
qed

lemma stepped_params_counts:
  "stepCount stepped_params = 3" "builder_stepCount stepped_params = 3"
  "stepDepth stepped_params = 0.2" "builder_stepDepth stepped_params = 0.2"
  "shallow stepped_params = 1.2"
  by (simp_all add: stepped_params_def builder_stepCount_def builder_stepDepth_def to_int32_def)

theorem final_step_lands_on_shelf_witness:
  "1 \<le> stepCount stepped_params
   \<and> 1 \<le> builder_stepCount stepped_params
   \<and> length (rectangle_steps stepped_params) = 3
   \<and> int 0 < stepCount stepped_params - 1
   \<and> int 1 < stepCount stepped_params - 1
   \<and> box_height (rectangle_steps stepped_params ! 0) = 0.2
   \<and> box_height (rectangle_steps stepped_params ! 1) = 0.2
   \<and> box_height (last (rectangle_steps stepped_params)) = 0.55
   \<and> box_bottom (last (rectangle_steps stepped_params)) = - 1.2
   \<and> box_height (last (bbox_steps stepped_params (-5) 5)) = 0.55
   \<and> box_bottom (last (bbox_steps stepped_params (-5) 5)) = - 1.2
   \<and> box_height (last (builder_steps stepped_params 0 0 10 5)) = 0.55
   \<and> box_bottom (last (builder_steps stepped_params 0 0 10 5)) = - 1.2"
proof -
  have h1: "1 \<le> stepCount stepped_params" and h2: "1 \<le> builder_stepCount stepped_params"
    and k0: "int 0 < stepCount stepped_params - 1" and k1: "int 1 < stepCount stepped_params - 1"
    by (simp_all add: stepped_params_counts)
  note t = final_step_lands_on_shelf[of stepped_params "-5" 5 0 0 10 5]
  from t h1 k0 have a0: "box_height (rectangle_steps stepped_params ! 0) = stepDepth stepped_params"
    by blast
  from t h1 k1 have a1: "box_height (rectangle_steps stepped_params ! 1) = stepDepth stepped_params"
    by blast
  from t h1 have b: "length (rectangle_steps stepped_params) = nat (stepCount stepped_params)"
    and c: "box_height (last (rectangle_steps stepped_params))
        = max 0.05 (max 0.5 (shallow stepped_params) - 0.25
                     - stepDepth stepped_params * of_int (stepCount stepped_params - 1))"
    and d: "box_bottom (last (rectangle_steps stepped_params)) = - max 0.5 (shallow stepped_params)"
    and e: "box_height (last (bbox_steps stepped_params (-5) 5))
        = max 0.05 (max 0.5 (shallow stepped_params) - 0.25
                     - stepDepth stepped_params * of_int (stepCount stepped_params - 1))"
    and f: "box_bottom (last (bbox_steps stepped_params (-5) 5)) = - max 0.5 (shallow stepped_params)"
    by blast+
  from t h2 have g: "box_height (last (builder_steps stepped_params 0 0 10 5))
        = max 0.05 (max 0.5 (shallow stepped_params) - 0.25
                     - builder_stepDepth stepped_params * of_int (builder_stepCount stepped_params - 1))"
    and h: "box_bottom (last (builder_steps stepped_params 0 0 10 5))
        = - max 0.5 (shallow stepped_params)"
    by blast+
  show ?thesis
    using h1 h2 k0 k1 a0 a1 b c d e f g h by (simp add: stepped_params_counts)
qed

text \<open>
  Read on the parameters themselves the claim fails in \<open>PoolBuilder.build\<close>, which
  raises a requested rise of 5 mm to 1 cm: the first step is 0.01 high and the last
  fills 0.93, not 0.94.
\<close>

theorem step_rise_clamped_counterexample:
  "1 \<le> stepCount fine_step_params
   \<and> stepDepth fine_step_params = 0.005
   \<and> box_height (builder_steps fine_step_params 0 0 10 5 ! 0) = 0.01
   \<and> box_height (builder_steps fine_step_params 0 0 10 5 ! 0) \<noteq> stepDepth fine_step_params
   \<and> box_height (last (builder_steps fine_step_params 0 0 10 5)) = 0.93
   \<and> max 0.05 (max 0.5 (shallow fine_step_params) - 0.25
                - stepDepth fine_step_params * of_int (stepCount fine_step_params - 1)) = 0.94"
proof -
  have c: "builder_stepCount fine_step_params = 3" "builder_stepDepth fine_step_params = 0.01"
    "stepCount fine_step_params = 3" "stepDepth fine_step_params = 0.005"
    "shallow fine_step_params = 1.2"
    by (simp_all add: fine_step_params_def builder_stepCount_def builder_stepDepth_def
        to_int32_def)
  have n: "(1::int) \<le> 3" by simp
  note s = step_run_shape[OF n, of "0.01" "max 0.5 1.2" "0 - 10 / 2" 0 5]
  have b: "builder_steps fine_step_params 0 0 10 5 = step_run 0.01 (max 0.5 1.2) (0 - 10 / 2) 0 5 3"
    by (simp add: builder_steps_def Let_def c)
  have k: "int 0 < 3 - 1" by simp
  from s k have h0: "box_height (step_run 0.01 (max 0.5 1.2) (0 - 10 / 2) 0 5 3 ! 0) = 0.01"
    by blast
  from s have hl: "box_height (last (step_run 0.01 (max 0.5 1.2) (0 - 10 / 2) 0 5 3))
                     = max 0.05 (max 0.5 1.2 - 0.25 - 0.01 * of_int (3 - 1))"
    by blast
  show ?thesis unfolding b h0 hl by (simp add: c)
qed

subsection \<open>Walls\<close>

lemma rectangle_walls_extent:
  assumes "w \<in> set (rectangle_walls params)"
  shows "box_top w = 0 \<and> box_height w = max (max 0.5 (shallow params)) (deep params)
         \<and> pos_z w = - box_height w / 2"
  using assms by (auto simp: rectangle_walls_def Let_def new_box_extent)

lemma lshape_walls_extent:
  assumes "w \<in> set (lshape_walls params)"
  shows "box_top w = 0 \<and> box_height w = max (max 0.5 (shallow params)) (deep params)
         \<and> pos_z w = - box_height w / 2"
proof -
  from assms obtain len x y where
    "w = new_box len 0.2 (max (max 0.5 (shallow params)) (deep params)) x y
           (- max (max 0.5 (shallow params)) (deep params) / 2)
           (Some (max (max 0.5 (shallow params)) (deep params)))"
    by (auto simp: lshape_walls_def Let_def split: if_splits)
  then show ?thesis by (simp add: new_box_extent)
qed

lemma builder_walls_extent:
  assumes "w \<in> set (builder_walls params perimeter2D)"
  shows "box_top w = 0 \<and> box_height w = max (shallow params) (deep params)
         \<and> pos_z w = - box_height w / 2"
proof -
  from assms obtain len x y where
    "w = new_box len 0.05 (max (deep params) (shallow params)) x y
           (- max (deep params) (shallow params) / 2)
           (Some (max (deep params) (shallow params)))"
    by (auto simp: builder_walls_def Let_def split: if_splits)
  then show ?thesis by (simp add: new_box_extent max.commute)
qed

text \<open>
  Claim C4, as the code has it.  Before any wall raise every wall has its top plane at
  \<open>z = 0\<close>, and every wall box of height \<open>h\<close> is centred at \<open>z = -h/2\<close>.  The height is
  \<open>max(max(0.5, shallow), deep)\<close> (the clamped deep depth) in the rectangle, L-shape,
  oval and kidney builders and \<open>max(shallow, deep)\<close> in \<open>PoolBuilder.build\<close>; the two
  agree whenever \<open>max(shallow, deep) \<ge> 0.5\<close>.
\<close>

theorem wall_top_at_datum:
  "(\<forall>w \<in> set (rectangle_walls params).
       box_top w = 0 \<and> box_height w = max (max 0.5 (shallow params)) (deep params)
       \<and> pos_z w = - box_height w / 2)
   \<and> (\<forall>w \<in> set (lshape_walls params).
       box_top w = 0 \<and> box_height w = max (max 0.5 (shallow params)) (deep params)
       \<and> pos_z w = - box_height w / 2)
   \<and> ring_top (oval_wall params) = 0
   \<and> ring_height (oval_wall params) = max (max 0.5 (shallow params)) (deep params)
   \<and> ring_top (kidney_wall params) = 0
   \<and> ring_height (kidney_wall params) = max (max 0.5 (shallow params)) (deep params)
   \<and> (\<forall>w \<in> set (builder_walls params perimeter2D).
       box_top w = 0 \<and> box_height w = max (shallow params) (deep params)
       \<and> pos_z w = - box_height w / 2)
   \<and> (0.5 \<le> max (shallow params) (deep params) \<longrightarrow>
        max (max 0.5 (shallow params)) (deep params) = max (shallow params) (deep params))"
proof (intro conjI ballI impI)
  show "ring_top (oval_wall params) = 0"
    by (simp add: oval_wall_def ring_top_def Let_def)
  show "ring_height (oval_wall params) = max (max 0.5 (shallow params)) (deep params)"
    by (simp add: oval_wall_def ring_height_def ring_top_def ring_bottom_def Let_def)
  show "ring_top (kidney_wall params) = 0"
    by (simp add: kidney_wall_def ring_top_def Let_def)
  show "ring_height (kidney_wall params) = max (max 0.5 (shallow params)) (deep params)"
    by (simp add: kidney_wall_def ring_height_def ring_top_def ring_bottom_def Let_def)
  show "max (max 0.5 (shallow params)) (deep params) = max (shallow params) (deep params)"
    if "0.5 \<le> max (shallow params) (deep params)"
    using that by (simp add: max_def split: if_splits)
qed (use rectangle_walls_extent lshape_walls_extent builder_walls_extent in blast)+

lemma test_builder_walls:
  "builder_walls test_params test_perimeter =
     [new_box 10 0.05 2.5 0 (- 2.5) (- 1.25) (Some 2.5),
      new_box 5 0.05 2.5 5 0 (- 1.25) (Some 2.5),
      new_box 10 0.05 2.5 0 2.5 (- 1.25) (Some 2.5),
      new_box 5 0.05 2.5 (- 5) 0 (- 1.25) (Some 2.5)]"
  by (simp add: builder_walls_def test_params_def test_perimeter_def Let_def upt_rec
      hypot_axis)

theorem wall_top_at_datum_witness:
  "hd (rectangle_walls test_params) \<in> set (rectangle_walls test_params)
   \<and> box_top (hd (rectangle_walls test_params)) = 0
   \<and> box_height (hd (rectangle_walls test_params)) = 2.5
   \<and> hd (lshape_walls test_params) \<in> set (lshape_walls test_params)
   \<and> box_top (hd (lshape_walls test_params)) = 0
   \<and> hd (builder_walls test_params test_perimeter)
        \<in> set (builder_walls test_params test_perimeter)
   \<and> box_top (hd (builder_walls test_params test_perimeter)) = 0
   \<and> box_height (hd (builder_walls test_params test_perimeter)) = 2.5
   \<and> pos_z (hd (builder_walls test_params test_perimeter)) = - 1.25
   \<and> 0.5 \<le> max (shallow test_params) (deep test_params)
   \<and> max (max 0.5 (shallow test_params)) (deep test_params)
       = max (shallow test_params) (deep test_params)"
proof -
  have m1: "hd (rectangle_walls test_params) \<in> set (rectangle_walls test_params)"
    by (simp add: rectangle_walls_def Let_def)
  have m2: "hd (lshape_walls test_params) \<in> set (lshape_walls test_params)"
    by (simp add: lshape_walls_def lshape_borderPts_def test_params_def Let_def upt_rec
        hypot_axis)
  have m3: "hd (builder_walls test_params test_perimeter)
              \<in> set (builder_walls test_params test_perimeter)"
    by (simp add: test_builder_walls)
  have m4: "0.5 \<le> max (shallow test_params) (deep test_params)"
    by (simp add: test_params_def)
  note t = wall_top_at_datum[of test_params test_perimeter]
  from t m1 have a: "box_top (hd (rectangle_walls test_params)) = 0"
    "box_height (hd (rectangle_walls test_params))
       = max (max 0.5 (shallow test_params)) (deep test_params)"
    by blast+
  from t m2 have b: "box_top (hd (lshape_walls test_params)) = 0" by blast
  from t m3 have c: "box_top (hd (builder_walls test_params test_perimeter)) = 0"
    "box_height (hd (builder_walls test_params test_perimeter))
       = max (shallow test_params) (deep test_params)"
    "pos_z (hd (builder_walls test_params test_perimeter))
       = - box_height (hd (builder_walls test_params test_perimeter)) / 2"
    by blast+
  from t m4 have d: "max (max 0.5 (shallow test_params)) (deep test_params)
       = max (shallow test_params) (deep test_params)"
    by blast
  show ?thesis
    using m1 m2 m3 m4 a b c d by (simp add: test_params_def)
qed

text \<open>
  In the rectangle builder the height is not \<open>max(shallow, deep)\<close> when both depths are
  below the 0.5 m clamp: the wading pool (0.3 m to 0.4 m) gets walls of 0.5 m.
\<close>

theorem wall_height_clamped_counterexample:
  "max (shallow wading_params) (deep wading_params) = 0.4
   \<and> map box_height (rectangle_walls wading_params) = [0.5, 0.5, 0.5, 0.5]
   \<and> box_height (rectangle_walls wading_params ! 0)
       \<noteq> max (shallow wading_params) (deep wading_params)"
  by (simp add: wading_params_def rectangle_walls_def Let_def new_box_extent)

section \<open>Properties of the step chain-push\<close>

lemma run_length_pos_x_update: "run_length (s\<lparr>pos_x := c\<rparr>) = run_length s"
  by (simp add: run_length_def bbox_len_x_def)

lemma chain_length: "length (fst (chain r ss)) = length ss"
  by (induction ss arbitrary: r) (simp_all add: Let_def)

lemma chain_run_lengths: "map run_length (fst (chain r ss)) = map run_length ss"
  by (induction ss arbitrary: r) (simp_all add: Let_def run_length_pos_x_update)

lemma chain_runX: "snd (chain r ss) = r + sum_list (map run_length ss)"
  by (induction ss arbitrary: r) (simp_all add: Let_def)

lemma chain_nth:
  "i < length ss \<Longrightarrow>
     fst (chain r ss) ! i
       = (ss ! i)\<lparr>pos_x := r + sum_list (map run_length (take i ss)) + run_length (ss ! i) * 0.5\<rparr>"
proof (induction ss arbitrary: r i)
  case Nil
  then show ?case by simp
next
  case (Cons s ss)
  show ?case
  proof (cases i)
    case 0
    then show ?thesis by (simp add: Let_def)
  next
    case (Suc j)
    then have "j < length ss" using Cons.prems by simp
    from Cons.IH[OF this, of "r + run_length s"] Suc show ?thesis
      by (simp add: Let_def add.assoc)
  qed
qed

lemma chain_left_edge:
  assumes "i < length ss"
  shows "left_edge (fst (chain r ss) ! i) = r + sum_list (map run_length (take i ss))"
  by (simp add: chain_nth[OF assms] left_edge_def run_length_pos_x_update)

lemma chain_right_edge:
  assumes "i < length ss"
  shows "right_edge (fst (chain r ss) ! i) = r + sum_list (map run_length (take (Suc i) ss))"
  by (simp add: chain_nth[OF assms] right_edge_def run_length_pos_x_update
      take_Suc_conv_app_nth[OF assms])

lemma chain_pos_x:
  assumes "i < length ss"
  shows "pos_x (fst (chain r ss) ! i)
           = r + sum_list (map run_length (take i ss)) + run_length (ss ! i) * 0.5"
  by (simp add: chain_nth[OF assms])

lemma chain_pos_x_step:
  assumes "Suc i < length ss"
  shows "pos_x (fst (chain r ss) ! Suc i) - pos_x (fst (chain r ss) ! i)
           = run_length (ss ! i) * 0.5 + run_length (ss ! Suc i) * 0.5"
proof -
  have i: "i < length ss" using assms by simp
  show ?thesis
    by (simp add: chain_pos_x[OF assms] chain_pos_x[OF i] take_Suc_conv_app_nth[OF i])
qed

lemma foldl_minEdgeStep_Some:
  "foldl minEdgeStep (Some e) ss = Some (fold min (map left_edge ss) e)"
  by (induction ss arbitrary: e) (simp_all add: minEdgeStep_def min_def)

lemma minEdgeX_Min:
  assumes "steps \<noteq> []"
  shows "minEdgeX steps = Some (Min (left_edge ` set steps))"
proof -
  obtain s ss where eq: "steps = s # ss" using assms by (cases steps) auto
  have "Min (left_edge ` set steps) = Min (set (left_edge s # map left_edge ss))"
    by (simp add: eq)
  also have "\<dots> = fold min (map left_edge ss) (left_edge s)"
    by (rule Min.set_eq_fold)
  finally show ?thesis
    by (simp add: eq minEdgeX_def minEdgeStep_def foldl_minEdgeStep_Some)
qed

lemma rescale_selected_length: "length (rescale_selected val sel steps) = length steps"
  by (simp add: rescale_selected_def Let_def)

text \<open>
  Claim C6.  For a non-empty list of steps the handler re-chains every step.  With
  \<open>steps1\<close> the steps after the selected one was rescaled, \<open>sorted\<close> those steps ordered
  by x position and \<open>m\<close> the least left edge among them: the result holds the steps of
  \<open>sorted\<close> with unchanged lengths and new centres; the first left edge is \<open>m\<close>; each
  further left edge equals the right edge of the step before; the right edge of the
  last step is the final \<open>runX = m +\<close> the sum of the scaled lengths.  When no length is
  negative the new centres are again in ascending order, and when all lengths equal \<open>L\<close>
  the centres are exactly \<open>L\<close> apart and \<open>runX = m + n L\<close>.
\<close>

theorem chain_push_contiguous:
  assumes "steps \<noteq> []"
  shows "\<exists>out runX m.
           stepExtension val sel steps = Some (out, runX)
         \<and> m = Min (left_edge ` set (rescale_selected val sel steps))
         \<and> length out = length steps
         \<and> map run_length out
             = map run_length (sort_key pos_x (rescale_selected val sel steps))
         \<and> left_edge (hd out) = m
         \<and> (\<forall>i. Suc i < length out \<longrightarrow> left_edge (out ! Suc i) = right_edge (out ! i))
         \<and> right_edge (last out) = runX
         \<and> runX = m + sum_list (map run_length out)
         \<and> ((\<forall>i. i < length out \<longrightarrow> 0 \<le> run_length (out ! i)) \<longrightarrow> sorted (map pos_x out))
         \<and> (\<forall>L. (\<forall>i. i < length out \<longrightarrow> run_length (out ! i) = L) \<longrightarrow>
                (\<forall>i. Suc i < length out \<longrightarrow> pos_x (out ! Suc i) - pos_x (out ! i) = L)
                \<and> runX = m + real (length out) * L)"
proof -
  let ?steps1 = "rescale_selected val sel steps"
  let ?sorted = "sort_key pos_x ?steps1"
  let ?m = "Min (left_edge ` set ?steps1)"
  let ?out = "fst (chain ?m ?sorted)"
  let ?runX = "snd (chain ?m ?sorted)"
  have ne1: "?steps1 \<noteq> []"
    using assms rescale_selected_length[of val sel steps] by (metis length_0_conv)
  have len_sorted: "length ?sorted = length steps"
    by (simp only: length_sort rescale_selected_length)
  have len_out: "length ?out = length steps"
    by (simp only: chain_length len_sorted)
  have pos_len: "0 < length steps" using assms by simp
  have ne_out: "?out \<noteq> []" using len_out pos_len by (metis length_greater_0_conv)
  have rl: "map run_length ?out = map run_length ?sorted" by (rule chain_run_lengths)
  have rl_nth: "run_length (?out ! i) = run_length (?sorted ! i)" if "i < length steps" for i
  proof -
    have "map run_length ?out ! i = map run_length ?sorted ! i" by (simp only: rl)
    then show ?thesis using that len_out len_sorted by simp
  qed
  have ex: "stepExtension val sel steps = Some (?out, ?runX)"
    using assms by (simp add: stepExtension_def Let_def minEdgeX_Min[OF ne1])
  have first: "left_edge (hd ?out) = ?m"
  proof -
    have "hd ?out = ?out ! 0" by (rule hd_conv_nth[OF ne_out])
    moreover have "left_edge (?out ! 0) = ?m"
      using pos_len len_sorted by (simp add: chain_left_edge)
    ultimately show ?thesis by simp
  qed
  have contig: "left_edge (?out ! Suc i) = right_edge (?out ! i)" if "Suc i < length ?out" for i
  proof -
    have a: "Suc i < length ?sorted" and b: "i < length ?sorted"
      using that len_out len_sorted by simp_all
    show ?thesis by (simp only: chain_left_edge[OF a] chain_right_edge[OF b])
  qed
  have runX: "?runX = ?m + sum_list (map run_length ?out)"
    by (simp only: chain_runX rl)
  have lastR: "right_edge (last ?out) = ?runX"
  proof -
    have n: "length steps - 1 < length ?sorted" using pos_len len_sorted by simp
    have "last ?out = ?out ! (length steps - 1)"
      using last_conv_nth[OF ne_out] by (simp only: len_out)
    then have "right_edge (last ?out)
                 = ?m + sum_list (map run_length (take (Suc (length steps - 1)) ?sorted))"
      by (simp only: chain_right_edge[OF n])
    also have "take (Suc (length steps - 1)) ?sorted = ?sorted"
      using pos_len len_sorted by simp
    finally show ?thesis by (simp only: chain_runX)
  qed
  have step: "pos_x (?out ! Suc i) - pos_x (?out ! i)
                = run_length (?out ! i) * 0.5 + run_length (?out ! Suc i) * 0.5"
    if "Suc i < length ?out" for i
  proof -
    have a: "Suc i < length ?sorted" using that len_out len_sorted by simp
    have b: "Suc i < length steps" "i < length steps" using that len_out by simp_all
    show ?thesis by (simp only: chain_pos_x_step[OF a] rl_nth[OF b(1)] rl_nth[OF b(2)])
  qed
  have asc: "sorted (map pos_x ?out)" if nn: "\<forall>i. i < length ?out \<longrightarrow> 0 \<le> run_length (?out ! i)"
  proof -
    have "pos_x (?out ! i) \<le> pos_x (?out ! Suc i)" if "Suc i < length ?out" for i
    proof -
      have "0 \<le> run_length (?out ! i)" "0 \<le> run_length (?out ! Suc i)"
        using nn that by simp_all
      with step[OF that] show ?thesis by linarith
    qed
    then show ?thesis by (simp add: sorted_iff_nth_Suc)
  qed
  have equal: "(\<forall>i. Suc i < length ?out \<longrightarrow> pos_x (?out ! Suc i) - pos_x (?out ! i) = L)
               \<and> ?runX = ?m + real (length ?out) * L"
    if eq: "\<forall>i. i < length ?out \<longrightarrow> run_length (?out ! i) = L" for L
  proof (intro conjI allI impI)
    show "pos_x (?out ! Suc i) - pos_x (?out ! i) = L" if "Suc i < length ?out" for i
    proof -
      have "run_length (?out ! i) = L" "run_length (?out ! Suc i) = L" using eq that by simp_all
      with step[OF that] show ?thesis by simp
    qed
    have "map run_length ?out = replicate (length ?out) L"
      using eq by (simp add: list_eq_iff_nth_eq)
    then have "sum_list (map run_length ?out) = real (length ?out) * L"
      by (simp only: sum_list_replicate)
    with runX show "?runX = ?m + real (length ?out) * L" by simp
  qed
  from ex len_out rl first contig lastR runX asc equal show ?thesis by blast
qed

lemma three_steps_pushed:
  "stepExtension 0.3 1 three_steps
     = Some ([new_box 0.3 5 0.2 (- 4.85) 0 (- 0.35) None,
              new_box 0.3 5 0.2 (- 4.55) 0 (- 0.55) None,
              new_box 0.3 5 0.55 (- 4.25) 0 (- 0.925) None], - 4.1)"
  by (simp add: stepExtension_def three_steps_def rescale_selected_def Let_def
      minEdgeX_def minEdgeStep_def new_box_def bbox_len_x_def run_length_def left_edge_def)

theorem chain_push_contiguous_witness:
  "three_steps \<noteq> []
   \<and> (\<exists>out runX.
        stepExtension 0.3 1 three_steps = Some (out, runX)
      \<and> runX = - 4.1
      \<and> left_edge (hd out) = - 5
      \<and> left_edge (out ! 1) = right_edge (out ! 0)
      \<and> left_edge (out ! 2) = right_edge (out ! 1)
      \<and> right_edge (last out) = - 5 + 3 * 0.3)"
proof -
  have ne: "three_steps \<noteq> []" by (simp add: three_steps_def)
  from chain_push_contiguous[OF ne, where val = "0.3" and sel = 1] obtain out runX m where
    ex: "stepExtension 0.3 1 three_steps = Some (out, runX)"
    and len: "length out = length three_steps"
    and first: "left_edge (hd out) = m"
    and contig: "\<forall>i. Suc i < length out \<longrightarrow> left_edge (out ! Suc i) = right_edge (out ! i)"
    and lastR: "right_edge (last out) = runX"
    by blast
  have l3: "length out = 3" using len by (simp add: three_steps_def)
  from ex three_steps_pushed have out: "out = [new_box 0.3 5 0.2 (- 4.85) 0 (- 0.35) None,
              new_box 0.3 5 0.2 (- 4.55) 0 (- 0.55) None,
              new_box 0.3 5 0.55 (- 4.25) 0 (- 0.925) None]" and rx: "runX = - 4.1"
    by simp_all
  have c0: "left_edge (out ! 1) = right_edge (out ! 0)"
    using contig l3 by (metis One_nat_def Suc_1 lessI numeral_3_eq_3 Suc_lessD)
  have c1: "left_edge (out ! 2) = right_edge (out ! 1)"
    using contig l3 by (metis One_nat_def Suc_1 lessI numeral_3_eq_3)
  have f: "left_edge (hd out) = - 5"
    unfolding out by (simp add: new_box_def left_edge_def run_length_def bbox_len_x_def)
  have r: "right_edge (last out) = - 5 + 3 * 0.3" using lastR rx by simp
  from ne ex rx f c0 c1 r show ?thesis by blast
qed

section \<open>Properties of the tiling UVs\<close>

lemma vertexUV_cong:
  assumes "x3 (m_scale m') = x3 (m_scale m)" "y3 (m_scale m') = y3 (m_scale m)"
    and "x3 (m_position m') = x3 (m_position m)" "y3 (m_position m') = y3 (m_position m)"
    and "isWall m' = isWall m" "isStep m' = isStep m" "isFloor m' = isFloor m"
    and "isRiser m' = isRiser m" "forceVerticalUV m' = forceVerticalUV m"
    and z: "z3 (fst vn) * z3 (m_scale m') + z3 (m_position m')
              = z3 (fst vn) * z3 (m_scale m) + z3 (m_position m)"
  shows "vertexUV tile g m' vn = vertexUV tile g m vn"
  unfolding vertexUV_def Let_def or0_id by (simp only: assms)

lemma wallRaise_keeps:
  "x3 (m_scale (wallRaise extra m)) = x3 (m_scale m)"
  "y3 (m_scale (wallRaise extra m)) = y3 (m_scale m)"
  "x3 (m_position (wallRaise extra m)) = x3 (m_position m)"
  "y3 (m_position (wallRaise extra m)) = y3 (m_position m)"
  "isWall (wallRaise extra m) = isWall m" "isStep (wallRaise extra m) = isStep m"
  "isFloor (wallRaise extra m) = isFloor m" "isRiser (wallRaise extra m) = isRiser m"
  "forceVerticalUV (wallRaise extra m) = forceVerticalUV m"
  "geo (wallRaise extra m) = geo m"
  "m_rotation_z (wallRaise extra m) = m_rotation_z m"
  by (simp_all add: wallRaise_def Let_def x3_def y3_def)

lemma world_pos_z: "z3 (world_pos m v) = z3 v * z3 (m_scale m) + z3 (m_position m)"
  by (simp add: world_pos_def Let_def z3_def)

lemma wallRaise_standard:
  assumes "m_baseHeight m = Some h" "0 < h"
  shows "z3 (m_scale (wallRaise extra m)) = (h + extra) / h"
    and "z3 (m_position (wallRaise extra m)) = - (h / 2) + extra / 2"
  using assms by (simp_all add: wallRaise_def Let_def z3_def)

text \<open>
  Claim C7.  Raising a wall (scaling its height axis and moving its centre) and
  re-running \<open>updateScaledBoxTilingUVs\<close> with the same UV origins gives every vertex
  whose world position did not change the \<open>(u, v)\<close> pair it had before.  The bottom
  vertices of a wall of base height \<open>h > 0\<close> (local \<open>z = -h/2\<close>, lying in the plane
  \<open>z = -h\<close>, as built or after an earlier raise) are such vertices, for every raise, in
  particular for the raise by \<open>h\<close> that makes the scale 2.
\<close>

theorem uv_stable_under_wall_raise:
  "(\<forall>k. k < length (geo m) \<longrightarrow>
       world_pos (wallRaise extra m) (fst (geo m ! k)) = world_pos m (fst (geo m ! k)) \<longrightarrow>
       updateScaledBoxTilingUVs tileSize g (wallRaise extra m) ! k
         = updateScaledBoxTilingUVs tileSize g m ! k)
   \<and> (m_baseHeight m = Some h \<and> 0 < h \<longrightarrow>
        z3 (m_scale (wallRaise h m)) = 2
      \<and> (\<forall>k. k < length (geo m) \<longrightarrow>
            z3 (fst (geo m ! k)) = - h / 2 \<and> z3 (world_pos m (fst (geo m ! k))) = - h \<longrightarrow>
            world_pos (wallRaise extra m) (fst (geo m ! k)) = world_pos m (fst (geo m ! k))))"
proof (intro conjI allI impI)
  fix k
  assume k: "k < length (geo m)"
    and w: "world_pos (wallRaise extra m) (fst (geo m ! k)) = world_pos m (fst (geo m ! k))"
  from w have z: "z3 (fst (geo m ! k)) * z3 (m_scale (wallRaise extra m))
                    + z3 (m_position (wallRaise extra m))
                  = z3 (fst (geo m ! k)) * z3 (m_scale m) + z3 (m_position m)"
    by (simp add: world_pos_def Let_def)
  have "vertexUV tile g (wallRaise extra m) (geo m ! k) = vertexUV tile g m (geo m ! k)" for tile
    by (rule vertexUV_cong) (simp_all only: wallRaise_keeps z)
  then show "updateScaledBoxTilingUVs tileSize g (wallRaise extra m) ! k
               = updateScaledBoxTilingUVs tileSize g m ! k"
    using k by (simp add: updateScaledBoxTilingUVs_def Let_def wallRaise_keeps)
next
  assume a: "m_baseHeight m = Some h \<and> 0 < h"
  then show "z3 (m_scale (wallRaise h m)) = 2"
    by (simp add: wallRaise_standard(1)[of m h h])
next
  fix k
  assume a: "m_baseHeight m = Some h \<and> 0 < h"
    and k: "k < length (geo m)"
    and b: "z3 (fst (geo m ! k)) = - h / 2 \<and> z3 (world_pos m (fst (geo m ! k))) = - h"
  from a have h: "m_baseHeight m = Some h" "0 < h" by simp_all
  have old: "z3 (fst (geo m ! k)) * z3 (m_scale m) + z3 (m_position m) = - h"
    using b unfolding world_pos_z by blast
  have "- h / 2 * ((h + extra) / h) + (- (h / 2) + extra / 2) = - h"
    using h(2) by (simp add: field_simps)
  then have new: "z3 (fst (geo m ! k)) * z3 (m_scale (wallRaise extra m))
                    + z3 (m_position (wallRaise extra m)) = - h"
    using b by (simp add: wallRaise_standard[OF h])
  show "world_pos (wallRaise extra m) (fst (geo m ! k)) = world_pos m (fst (geo m ! k))"
    by (simp add: world_pos_def Let_def wallRaise_keeps new old)
qed

theorem uv_stable_under_wall_raise_witness:
  "(0::nat) < length (geo test_wall)
   \<and> m_baseHeight test_wall = Some 2.5
   \<and> z3 (fst (geo test_wall ! 0)) = - 2.5 / 2
   \<and> z3 (m_scale (wallRaise 2.5 test_wall)) = 2
   \<and> world_pos (wallRaise 2.5 test_wall) (fst (geo test_wall ! 0))
       = world_pos test_wall (fst (geo test_wall ! 0))
   \<and> world_pos test_wall (fst (geo test_wall ! 0)) = (- 5, - 2.7, - 2.5)
   \<and> updateScaledBoxTilingUVs 0.3 test_origins (wallRaise 2.5 test_wall) ! 0
       = updateScaledBoxTilingUVs 0.3 test_origins test_wall ! 0
   \<and> updateScaledBoxTilingUVs 0.3 test_origins test_wall ! 0 = (0, - 2.5 / 0.3)"
proof -
  have k: "(0::nat) < length (geo test_wall)" by (simp add: test_wall_def)
  have bh: "m_baseHeight test_wall = Some 2.5" by (simp add: test_wall_def)
  have a: "m_baseHeight test_wall = Some 2.5 \<and> (0::real) < 2.5"
    by (simp add: test_wall_def)
  have p: "world_pos test_wall (fst (geo test_wall ! 0)) = (- 5, - 2.7, - 2.5)"
    by (simp add: world_pos_def test_wall_def x3_def y3_def z3_def)
  have lz: "z3 (fst (geo test_wall ! 0)) = - 2.5 / 2" by (simp add: test_wall_def z3_def)
  have b: "z3 (fst (geo test_wall ! 0)) = - 2.5 / 2
           \<and> z3 (world_pos test_wall (fst (geo test_wall ! 0))) = - 2.5"
    unfolding p by (simp add: test_wall_def z3_def)
  note t = uv_stable_under_wall_raise[of test_wall "2.5" "0.3" test_origins "2.5"]
  from t a have s: "z3 (m_scale (wallRaise 2.5 test_wall)) = 2" by blast
  from t a k b have w: "world_pos (wallRaise 2.5 test_wall) (fst (geo test_wall ! 0))
       = world_pos test_wall (fst (geo test_wall ! 0))"
    by blast
  from t k w have u: "updateScaledBoxTilingUVs 0.3 test_origins (wallRaise 2.5 test_wall) ! 0
       = updateScaledBoxTilingUVs 0.3 test_origins test_wall ! 0"
    by blast
  have v: "updateScaledBoxTilingUVs 0.3 test_origins test_wall ! 0 = (0, - 2.5 / 0.3)"
    by (simp add: updateScaledBoxTilingUVs_def vertexUV_def test_wall_def test_origins_def
        or0_def x3_def y3_def z3_def)
  from k bh lz s w p u v show ?thesis by blast
qed

section \<open>Properties of the shape conversion\<close>

lemma hypot_gt_iff: "0 \<le> e \<Longrightarrow> (e < hypot a b) = (e * e < a * a + b * b)"
proof -
  assume e: "0 \<le> e"
  have "e = sqrt (e * e)" using e by simp
  then have "(e < hypot a b) = (sqrt (e * e) < sqrt (a * a + b * b))"
    by (simp add: hypot_def)
  also have "\<dots> = (e * e < a * a + b * b)" by (rule real_sqrt_less_iff)
  finally show ?thesis .
qed

lemma hypot_le_iff: "0 \<le> e \<Longrightarrow> (hypot a b \<le> e) = (a * a + b * b \<le> e * e)"
  using hypot_gt_iff[of e a b] by (simp add: not_less[symmetric])

text \<open>The two comparisons with \<open>eps = 1e-5\<close>, in the form the simplifier gives them.\<close>

lemma hypot_eps_gt: "(1 < hypot a b * 100000) = (1 < (a * a + b * b) * 10000000000)"
  using hypot_gt_iff[of "1 / 100000" a b] by simp

lemma hypot_eps_le: "(hypot a b * 100000 \<le> 1) = ((a * a + b * b) * 10000000000 \<le> 1)"
  using hypot_le_iff[of "1 / 100000" a b] by simp

lemma upt4: "[0..<4] = [0, 1, 2, 3]"
  by (simp add: upt_rec)

lemma cross3_orient: "cross3 p q r = orient p q r"
  by (simp add: cross3_def orient_def algebra_simps)

lemma orient_cycle: "orient q r p = orient p q r"
  by (simp add: orient_def algebra_simps)

lemma orient_swap: "orient r q p = - orient p q r"
  by (simp add: orient_def algebra_simps)

subsection \<open>Signed area and reversal\<close>

lemma signedArea_sum:
  "signedArea u = 0.5 * (\<Sum>i = 0..<length u.
       fst (u ! i) * snd (u ! ((i + 1) mod length u))
         - fst (u ! ((i + 1) mod length u)) * snd (u ! i))"
  by (simp add: signedArea_def interv_sum_list_conv_sum_set_nat)

lemma signedArea_rev: "signedArea (rev v) = - signedArea v"
proof -
  define n where "n = length v"
  define c :: "vec2 \<Rightarrow> vec2 \<Rightarrow> real" where "c p q = fst p * snd q - fst q * snd p" for p q
  define s where "s i = (if i = n - 1 then n - 1 else n - 2 - i)" for i
  have s_range: "s i < n" if "i < n" for i using that by (auto simp: s_def)
  have s_inv: "s (s i) = i" if "i < n" for i using that by (auto simp: s_def)
  have idx1: "rev v ! i = v ! ((s i + 1) mod n)" if "i < n" for i
  proof (cases "i = n - 1")
    case True
    then have "(s i + 1) mod n = 0" "n - 1 - i = 0" using that by (simp_all add: s_def)
    then show ?thesis using that by (simp add: rev_nth n_def)
  next
    case False
    then have "s i + 1 = n - 1 - i" "n - 1 - i < n" using that by (simp_all add: s_def)
    then show ?thesis using that by (simp add: rev_nth n_def)
  qed
  have idx2: "rev v ! ((i + 1) mod n) = v ! (s i)" if "i < n" for i
  proof (cases "i = n - 1")
    case True
    then have "(i + 1) mod n = 0" using that by simp
    moreover have "0 < length v" using that unfolding n_def by linarith
    then have "rev v ! 0 = v ! (n - 1)" by (simp add: rev_nth n_def)
    ultimately show ?thesis using True by (simp add: s_def)
  next
    case False
    then have "(i + 1) mod n = i + 1" "i + 1 < n" using that by simp_all
    then show ?thesis using False that by (simp add: s_def rev_nth n_def)
  qed
  have flip: "c (rev v ! i) (rev v ! ((i + 1) mod n)) = - c (v ! (s i)) (v ! ((s i + 1) mod n))"
    if "i < n" for i
    unfolding idx1[OF that] idx2[OF that] by (simp add: c_def)
  have "(\<Sum>i = 0..<n. c (rev v ! i) (rev v ! ((i + 1) mod n)))
          = (\<Sum>i = 0..<n. - c (v ! (s i)) (v ! ((s i + 1) mod n)))"
    by (rule sum.cong) (simp_all only: flip atLeastLessThan_iff)
  also have "\<dots> = (\<Sum>j = 0..<n. - c (v ! j) (v ! ((j + 1) mod n)))"
    by (rule sum.reindex_bij_witness[of _ s s]) (auto simp: s_range s_inv)
  also have "\<dots> = - (\<Sum>j = 0..<n. c (v ! j) (v ! ((j + 1) mod n)))"
    by (simp add: sum_negf)
  finally have "(\<Sum>i = 0..<n. c (rev v ! i) (rev v ! ((i + 1) mod n)))
                  = - (\<Sum>j = 0..<n. c (v ! j) (v ! ((j + 1) mod n)))" .
  then show ?thesis by (simp add: signedArea_sum c_def n_def)
qed

lemma enforceCCW_nonneg: "0 \<le> signedArea (enforceCCW v)"
  by (simp add: enforceCCW_def signedArea_rev)

lemma enforceCCW_same: "set (enforceCCW v) = set v" "length (enforceCCW v) = length v"
  by (simp_all add: enforceCCW_def)

subsection \<open>Segments separated by a line\<close>



lemma side_collinear:
  assumes d: "d \<noteq> (0, 0)" and "side c d a = 0" "side c d b = 0" "side c d p = 0"
  shows "orient a b p = 0"
proof -
  define u1 where "u1 = fst b - fst a"
  define u2 where "u2 = snd b - snd a"
  define w1 where "w1 = fst p - fst a"
  define w2 where "w2 = snd p - snd a"
  have e1: "fst d * u2 = snd d * u1"
    using assms(2,3) by (simp add: side_def u1_def u2_def algebra_simps)
  have e2: "fst d * w2 = snd d * w1"
    using assms(2,4) by (simp add: side_def w1_def w2_def algebra_simps)
  have o: "orient a b p = u1 * w2 - u2 * w1"
    by (simp add: orient_def u1_def u2_def w1_def w2_def)
  have "fst d * (u1 * w2 - u2 * w1) = u1 * (fst d * w2) - w1 * (fst d * u2)"
    by (simp add: algebra_simps)
  also have "\<dots> = 0" unfolding e1 e2 by (simp add: algebra_simps)
  finally have z1: "fst d * (u1 * w2 - u2 * w1) = 0" .
  have "snd d * (u1 * w2 - u2 * w1) = w2 * (snd d * u1) - u2 * (snd d * w1)"
    by (simp add: algebra_simps)
  also have "\<dots> = 0" unfolding e1[symmetric] e2[symmetric] by (simp add: algebra_simps)
  finally have z2: "snd d * (u1 * w2 - u2 * w1) = 0" .
  have "fst d \<noteq> 0 \<or> snd d \<noteq> 0" using d by (cases d) auto
  with z1 z2 have "u1 * w2 - u2 * w1 = 0" by auto
  with o show ?thesis by simp
qed

lemma cross_identity:
  "(orient p q a * side c d b - orient p q b * side c d a) * (orient a b p - orient a b q)
     = (orient a b p * side c d q - orient a b q * side c d p) * (orient p q a - orient p q b)"
  by (simp add: orient_def side_def algebra_simps)

lemma weights_pos:
  fixes o1 o2 :: real
  assumes "o1 * o2 < 0"
  obtains s t D where "0 < s" "0 < t" "D \<noteq> 0" "s * D = o1" "t * D = - o2" "D = o1 - o2"
proof -
  from assms consider (pn) "0 < o1" "o2 < 0" | (np) "o1 < 0" "0 < o2"
    by (auto simp: mult_less_0_iff)
  then have "0 < o1 / (o1 - o2) \<and> 0 < (- o2) / (o1 - o2) \<and> o1 - o2 \<noteq> 0"
  proof cases
    case pn
    then have "0 < o1 - o2" "0 < - o2" by simp_all
    with pn show ?thesis by (intro conjI divide_pos_pos) simp_all
  next
    case np
    then have "o1 - o2 < 0" "- o2 < 0" by simp_all
    with np show ?thesis by (intro conjI divide_neg_neg) simp_all
  qed
  then have "0 < o1 / (o1 - o2)" "0 < (- o2) / (o1 - o2)" "o1 - o2 \<noteq> 0"
    "o1 / (o1 - o2) * (o1 - o2) = o1" "(- o2) / (o1 - o2) * (o1 - o2) = - o2"
    by simp_all
  then show ?thesis using that by blast
qed

lemma sep_no_cross:
  assumes d: "d \<noteq> (0, 0)"
    and ab: "side c d a \<le> 0" "side c d b \<le> 0"
    and pq: "0 \<le> side c d p" "0 \<le> side c d q"
  shows "\<not> segIntersects a b p q"
proof
  assume "segIntersects a b p q"
  then have x1: "orient a b p * orient a b q < 0" and x3: "orient p q a * orient p q b < 0"
    by (simp_all add: segIntersects_def Let_def)
  define La where "La = side c d a"
  define Lb where "Lb = side c d b"
  define Lp where "Lp = side c d p"
  define Lq where "Lq = side c d q"
  from weights_pos[OF x1] obtain s1 t1 D1 where
    w1: "0 < s1" "0 < t1" "D1 \<noteq> 0" "s1 * D1 = orient a b p" "t1 * D1 = - orient a b q"
      "D1 = orient a b p - orient a b q"
    by blast
  from weights_pos[OF x3] obtain s3 t3 D3 where
    w3: "0 < s3" "0 < t3" "D3 \<noteq> 0" "s3 * D3 = orient p q a" "t3 * D3 = - orient p q b"
      "D3 = orient p q a - orient p q b"
    by blast
  have idn: "(orient p q a * Lb - orient p q b * La) * D1
               = (orient a b p * Lq - orient a b q * Lp) * D3"
    unfolding La_def Lb_def Lp_def Lq_def w1(6) w3(6) by (rule cross_identity)
  define X1 where "X1 = s1 * Lq + t1 * Lp"
  define X3 where "X3 = s3 * Lb + t3 * La"
  have "X1 * D1 = (s1 * D1) * Lq + (t1 * D1) * Lp" by (simp add: X1_def algebra_simps)
  then have m1: "X1 * D1 = orient a b p * Lq - orient a b q * Lp" unfolding w1(4,5) by simp
  have "X3 * D3 = (s3 * D3) * Lb + (t3 * D3) * La" by (simp add: X3_def algebra_simps)
  then have m3: "X3 * D3 = orient p q a * Lb - orient p q b * La" unfolding w3(4,5) by simp
  have "X3 * (D3 * D1) = (X3 * D3) * D1" by simp
  also have "\<dots> = (orient a b p * Lq - orient a b q * Lp) * D3" unfolding m3 by (rule idn)
  also have "\<dots> = X1 * (D3 * D1)" unfolding m1[symmetric] by simp
  finally have "X3 = X1" using w1(3) w3(3) by simp
  have p1: "0 \<le> s1 * Lq" "0 \<le> t1 * Lp"
    using w1(1,2) pq by (simp_all add: Lp_def Lq_def)
  have p3: "s3 * Lb \<le> 0" "t3 * La \<le> 0"
    using w3(1,2) ab by (simp_all add: La_def Lb_def mult_le_0_iff)
  have "0 \<le> X1" using p1 by (simp add: X1_def)
  moreover have "X3 \<le> 0" using p3 by (simp add: X3_def)
  ultimately have z: "X1 = 0" "X3 = 0" using \<open>X3 = X1\<close> by simp_all
  from z(1) p1 have "s1 * Lq = 0" "t1 * Lp = 0"
    unfolding X1_def by linarith+
  then have Lpq: "Lq = 0" "Lp = 0" using w1(1,2) by auto
  from z(2) p3 have "s3 * Lb = 0" "t3 * La = 0"
    unfolding X3_def by linarith+
  then have Lab: "Lb = 0" "La = 0" using w3(1,2) by auto
  have "orient a b p = 0"
    using side_collinear[OF d] Lab Lpq unfolding La_def Lb_def Lp_def by blast
  with x1 show False by simp
qed

subsection \<open>Polar form of the angle key\<close>

lemma atan2_range: "- pi < atan2 y x" "atan2 y x \<le> pi"
proof -
  have a: "- (pi / 2) < arctan (y / x)" "arctan (y / x) < pi / 2"
    by (rule arctan_lbound, rule arctan_ubound)
  have "- pi < atan2 y x \<and> atan2 y x \<le> pi"
  proof (cases "x > 0")
    case True
    then show ?thesis using a pi_gt_zero by (simp add: atan2_def)
  next
    case False
    show ?thesis
    proof (cases "x < 0")
      case True
      show ?thesis
      proof (cases "y \<ge> 0")
        case True
        then have "y / x \<le> 0" using \<open>x < 0\<close> by (simp add: divide_nonneg_neg)
        then have "arctan (y / x) \<le> 0" by (simp add: arctan_le_zero_iff)
        then show ?thesis using a \<open>x < 0\<close> True pi_gt_zero by (simp add: atan2_def)
      next
        case False
        then have "0 < y / x" using \<open>x < 0\<close> by (simp add: divide_neg_neg)
        then have "0 < arctan (y / x)" by (simp add: zero_less_arctan_iff)
        then show ?thesis using a \<open>x < 0\<close> False pi_gt_zero by (simp add: atan2_def)
      qed
    next
      case False
      with \<open>\<not> x > 0\<close> have x0: "x = 0" by simp
      have "- pi < atan2 y 0" "atan2 y 0 \<le> pi"
        using pi_gt_zero by (cases "y > 0"; cases "y < 0"; simp add: atan2_def; linarith)+
      then show ?thesis using x0 by simp
    qed
  qed
  then show "- pi < atan2 y x" "atan2 y x \<le> pi" by simp_all
qed

lemma hypot_pos: "x \<noteq> 0 \<or> y \<noteq> 0 \<Longrightarrow> 0 < hypot x y"
proof -
  assume "x \<noteq> 0 \<or> y \<noteq> 0"
  then have "0 < x * x + y * y"
    by (metis add_pos_nonneg add_nonneg_pos mult_pos_pos mult_neg_neg zero_le_square
        not_less_iff_gr_or_eq)
  then show ?thesis by (simp add: hypot_def)
qed

lemma arctan_polar_pos:
  assumes "0 < x"
  shows "x = hypot x y * cos (arctan (y / x))" "y = hypot x y * sin (arctan (y / x))"
proof -
  have h: "0 < hypot x y" using assms by (simp add: hypot_pos)
  have "1 + (y / x)\<^sup>2 = (x * x + y * y) / (x * x)"
    using assms by (simp add: field_simps power2_eq_square)
  then have "sqrt (1 + (y / x)\<^sup>2) = sqrt (x * x + y * y) / sqrt (x * x)"
    by (simp add: real_sqrt_divide)
  also have "sqrt (x * x) = x" using assms by simp
  finally have s: "sqrt (1 + (y / x)\<^sup>2) = hypot x y / x" by (simp add: hypot_def)
  show "x = hypot x y * cos (arctan (y / x))"
    using h assms by (simp add: cos_arctan s)
  show "y = hypot x y * sin (arctan (y / x))"
    using h assms by (simp add: sin_arctan s)
qed

lemma hypot_neg: "hypot (- x) (- y) = hypot x y"
  by (simp add: hypot_def)

lemma atan2_polar:
  assumes "x \<noteq> 0 \<or> y \<noteq> 0"
  shows "x = hypot x y * cos (atan2 y x)" "y = hypot x y * sin (atan2 y x)"
proof -
  have "x = hypot x y * cos (atan2 y x) \<and> y = hypot x y * sin (atan2 y x)"
  proof (cases "x > 0")
    case True
    then show ?thesis using arctan_polar_pos[OF True, of y] by (simp add: atan2_def)
  next
    case False
    show ?thesis
    proof (cases "x < 0")
      case True
      then have p: "0 < - x" by simp
      have q: "(- y) / (- x) = y / x" by simp
      note ap = arctan_polar_pos[OF p, of "- y", unfolded q hypot_neg]
      show ?thesis
      proof (cases "y \<ge> 0")
        case True
        then show ?thesis using \<open>x < 0\<close> ap by (simp add: atan2_def)
      next
        case False
        then show ?thesis using \<open>x < 0\<close> ap by (simp add: atan2_def)
      qed
    next
      case False
      with \<open>\<not> x > 0\<close> have x0: "x = 0" by simp
      then have "y \<noteq> 0" using assms by simp
      then show ?thesis using x0 by (auto simp: atan2_def hypot_def)
    qed
  qed
  then show "x = hypot x y * cos (atan2 y x)" "y = hypot x y * sin (atan2 y x)" by simp_all
qed



lemma key_range: "- pi < key c p" "key c p \<le> pi"
  by (simp_all add: key_def atan2_range)

lemma key_central: "key c c = 0"
  by (simp add: key_def atan2_def)

lemma radius_pos: "p \<noteq> c \<Longrightarrow> 0 < radius c p"
  unfolding radius_def by (rule hypot_pos) (auto simp: prod_eq_iff)

lemma side_polar:
  assumes "p \<noteq> c"
  shows "side c (cos phi, sin phi) p = radius c p * sin (key c p - phi)"
proof -
  have ne: "fst p - fst c \<noteq> 0 \<or> snd p - snd c \<noteq> 0" using assms by (auto simp: prod_eq_iff)
  note pol = atan2_polar[OF ne, folded key_def radius_def]
  have "side c (cos phi, sin phi) p
          = cos phi * (radius c p * sin (key c p)) - sin phi * (radius c p * cos (key c p))"
    unfolding side_def fst_conv snd_conv using pol by simp
  also have "\<dots> = radius c p * sin (key c p - phi)"
    by (simp add: sin_diff algebra_simps)
  finally show ?thesis .
qed

lemma dot_polar:
  assumes "p \<noteq> c"
  shows "cos m * (fst p - fst c) + sin m * (snd p - snd c) = radius c p * cos (key c p - m)"
proof -
  have ne: "fst p - fst c \<noteq> 0 \<or> snd p - snd c \<noteq> 0" using assms by (auto simp: prod_eq_iff)
  note pol = atan2_polar[OF ne, folded key_def radius_def]
  have "cos m * (fst p - fst c) + sin m * (snd p - snd c)
          = cos m * (radius c p * cos (key c p)) + sin m * (radius c p * sin (key c p))"
    using pol by simp
  also have "\<dots> = radius c p * cos (key c p - m)"
    by (simp add: cos_diff algebra_simps)
  finally show ?thesis .
qed

lemma side_central: "side c d c = 0"
  by (simp add: side_def)

subsection \<open>Angular gaps about the centroid\<close>

lemma centroid_sum_gen:
  "(\<Sum>p\<leftarrow>v. g1 * (fst p - cx) + g2 * (snd p - cy))
     = g1 * (sum_list (map fst v) - real (length v) * cx)
       + g2 * (sum_list (map snd v) - real (length v) * cy)"
  by (induction v) (simp_all add: algebra_simps)

lemma centroid_balance:
  assumes "v \<noteq> []"
  shows "(\<Sum>p\<leftarrow>v. g1 * (fst p - fst (centroid v)) + g2 * (snd p - snd (centroid v))) = 0"
proof -
  have n: "real (length v) \<noteq> 0" using assms by simp
  show ?thesis unfolding centroid_sum_gen using n by (simp add: centroid_def)
qed

lemma cos_pos_window:
  assumes "(- (pi / 2) < x \<and> x < pi / 2) \<or> (3 * pi / 2 < x \<and> x < 5 * pi / 2)"
  shows "0 < cos x"
proof -
  from assms consider (a) "- (pi / 2) < x" "x < pi / 2" | (b) "3 * pi / 2 < x" "x < 5 * pi / 2"
    by blast
  then show ?thesis
  proof cases
    case a
    then show ?thesis by (rule cos_gt_zero_pi)
  next
    case b
    then have "- (pi / 2) < x - 2 * pi" "x - 2 * pi < pi / 2" by simp_all
    then have "0 < cos (x - 2 * pi)" by (rule cos_gt_zero_pi)
    then show ?thesis by (simp add: cos_diff)
  qed
qed

lemma all_central:
  assumes ne: "v \<noteq> []"
    and pos: "\<And>p. p \<in> set v \<Longrightarrow> p \<noteq> centroid v \<Longrightarrow> 0 < cos (key (centroid v) p - m)"
  shows "\<forall>p \<in> set v. p = centroid v"
proof -
  let ?c = "centroid v"
  let ?t = "\<lambda>p. cos m * (fst p - fst ?c) + sin m * (snd p - snd ?c)"
  have t_val: "?t p = radius ?c p * cos (key ?c p - m)" if "p \<noteq> ?c" for p
    by (rule dot_polar[OF that])
  have nonneg: "0 \<le> x" if "x \<in> set (map ?t v)" for x
  proof -
    from that obtain p where p: "p \<in> set v" "x = ?t p" by auto
    show ?thesis
    proof (cases "p = ?c")
      case True
      then show ?thesis using p(2) by simp
    next
      case False
      have "0 < radius ?c p * cos (key ?c p - m)"
        using radius_pos[OF False] pos[OF p(1) False] by (rule mult_pos_pos)
      then show ?thesis using p(2) t_val[OF False] by simp
    qed
  qed
  have "sum_list (map ?t v) = 0" by (rule centroid_balance[OF ne])
  then have zero: "\<forall>x \<in> set (map ?t v). x = 0"
    using sum_list_nonneg_eq_0_iff[of "map ?t v"] nonneg by blast
  show ?thesis
  proof (intro ballI, rule ccontr)
    fix p assume p: "p \<in> set v" and np: "p \<noteq> ?c"
    have "0 < radius ?c p * cos (key ?c p - m)"
      using radius_pos[OF np] pos[OF p np] by (rule mult_pos_pos)
    moreover have "?t p = 0" using zero p by auto
    ultimately show False using t_val[OF np] by simp
  qed
qed

lemma gap_le_pi:
  assumes ne: "v \<noteq> []" and set: "set w = set v"
    and sorted: "sorted (map (key (centroid v)) w)"
    and i: "Suc i < length w"
  shows "key (centroid v) (w ! Suc i) - key (centroid v) (w ! i) \<le> pi"
proof (rule ccontr)
  let ?c = "centroid v"
  let ?a = "key ?c (w ! i)"
  let ?b = "key ?c (w ! Suc i)"
  assume "\<not> ?b - ?a \<le> pi"
  then have big: "pi < ?b - ?a" by simp
  define mid where "mid = (?a + ?b) / 2"
  have ra: "- pi < ?a" and rb: "?b \<le> pi" by (rule key_range)+
  have m1: "mid < pi / 2" using big rb unfolding mid_def by argo
  have m2: "- (pi / 2) < mid" using big ra unfolding mid_def by argo
  have nci: "w ! i \<noteq> ?c"
  proof
    assume "w ! i = ?c"
    then have "?a = 0" by (simp add: key_central)
    with big rb show False by simp
  qed
  have outside: "key ?c p \<le> ?a \<or> ?b \<le> key ?c p" if "p \<in> set w" for p
  proof -
    from that obtain k where k: "k < length w" "p = w ! k" by (auto simp: in_set_conv_nth)
    show ?thesis
    proof (cases "k \<le> i")
      case True
      then have "map (key ?c) w ! k \<le> map (key ?c) w ! i"
        using sorted i by (intro sorted_nth_mono) simp_all
      then show ?thesis using k i True by simp
    next
      case False
      then have "Suc i \<le> k" by simp
      then have "map (key ?c) w ! Suc i \<le> map (key ?c) w ! k"
        using sorted k by (intro sorted_nth_mono) simp_all
      then show ?thesis using k i by simp
    qed
  qed
  have "0 < cos (key ?c p - (mid - pi))" if "p \<in> set v" "p \<noteq> ?c" for p
  proof -
    have pw: "p \<in> set w" using that set by simp
    have r: "- pi < key ?c p" "key ?c p \<le> pi" by (rule key_range)+
    from outside[OF pw] show ?thesis
    proof
      assume "key ?c p \<le> ?a"
      then have "key ?c p - (mid - pi) < pi / 2" using big unfolding mid_def by argo
      moreover have "- (pi / 2) < key ?c p - (mid - pi)" using r m1 by argo
      ultimately show ?thesis by (intro cos_pos_window) simp
    next
      assume "?b \<le> key ?c p"
      then have "3 * pi / 2 < key ?c p - (mid - pi)" using big unfolding mid_def by argo
      moreover have "key ?c p - (mid - pi) < 5 * pi / 2" using r m2 by argo
      ultimately show ?thesis by (intro cos_pos_window) simp
    qed
  qed
  from all_central[OF ne this] have "\<forall>p \<in> set v. p = ?c" by blast
  moreover have "w ! i \<in> set v" using i set by (metis Suc_lessD nth_mem)
  ultimately show False using nci by blast
qed

lemma spread_ge_pi:
  assumes ne: "v \<noteq> []" and set: "set w = set v"
    and sorted: "sorted (map (key (centroid v)) w)"
    and nc: "\<exists>p \<in> set v. p \<noteq> centroid v"
  shows "pi \<le> key (centroid v) (last w) - key (centroid v) (hd w)"
proof (rule ccontr)
  let ?c = "centroid v"
  let ?a = "key ?c (hd w)"
  let ?b = "key ?c (last w)"
  assume "\<not> pi \<le> ?b - ?a"
  then have small: "?b - ?a < pi" by simp
  define mid where "mid = (?a + ?b) / 2"
  have wne: "w \<noteq> []" using ne set by auto
  have inside: "?a \<le> key ?c p \<and> key ?c p \<le> ?b" if "p \<in> set w" for p
  proof -
    from that obtain k where k: "k < length w" "p = w ! k" by (auto simp: in_set_conv_nth)
    have "map (key ?c) w ! 0 \<le> map (key ?c) w ! k"
      using sorted k by (intro sorted_nth_mono) simp_all
    moreover have "map (key ?c) w ! k \<le> map (key ?c) w ! (length w - 1)"
      using sorted k by (intro sorted_nth_mono) simp_all
    ultimately show ?thesis
      using k wne by (simp add: hd_conv_nth last_conv_nth)
  qed
  have "0 < cos (key ?c p - mid)" if "p \<in> set v" "p \<noteq> ?c" for p
  proof -
    have pw: "p \<in> set w" using that set by simp
    from inside[OF pw] have "- (pi / 2) < key ?c p - mid" "key ?c p - mid < pi / 2"
      using small unfolding mid_def by argo+
    then show ?thesis by (rule cos_gt_zero_pi)
  qed
  from all_central[OF ne this] have "\<forall>p \<in> set v. p = ?c" by blast
  with nc show False by blast
qed

subsection \<open>The angle-sorted ring\<close>

lemma orient_same1: "orient a b a = 0"
  by (simp add: orient_def)

lemma segIntersects_sym: "segIntersects a b p q = segIntersects p q a b"
  by (auto simp: segIntersects_def Let_def)

lemma segIntersects_flip: "segIntersects b a q p = segIntersects a b p q"
proof -
  have "orient b a q = - orient a b q" "orient b a p = - orient a b p"
    "orient q p b = - orient p q b" "orient q p a = - orient p q a"
    by (simp_all add: orient_def algebra_simps)
  then show ?thesis by (auto simp: segIntersects_def Let_def mult.commute)
qed

lemma sin_window_neg: "- pi \<le> x \<Longrightarrow> x \<le> 0 \<Longrightarrow> sin x \<le> 0"
proof -
  assume "- pi \<le> x" "x \<le> 0"
  then have "0 \<le> sin (- x)" by (intro sin_ge_zero) simp_all
  then show ?thesis by simp
qed

lemma sin_window_pos:
  assumes "(0 \<le> x \<and> x \<le> pi) \<or> (- (2 * pi) \<le> x \<and> x \<le> - pi)"
  shows "0 \<le> sin x"
proof -
  from assms consider (a) "0 \<le> x" "x \<le> pi" | (b) "- (2 * pi) \<le> x" "x \<le> - pi" by blast
  then show ?thesis
  proof cases
    case a
    then show ?thesis by (rule sin_ge_zero)
  next
    case b
    then have "0 \<le> x + 2 * pi" "x + 2 * pi \<le> pi" by simp_all
    then have "0 \<le> sin (x + 2 * pi)" by (rule sin_ge_zero)
    then show ?thesis by (simp add: sin_add)
  qed
qed

lemma side_below:
  assumes "- pi \<le> key c p - phi" "key c p - phi \<le> 0"
  shows "side c (cos phi, sin phi) p \<le> 0"
proof (cases "p = c")
  case True
  then show ?thesis by (simp add: side_central)
next
  case False
  have "radius c p * sin (key c p - phi) \<le> 0"
    using radius_pos[OF False] sin_window_neg[OF assms] by (simp add: mult_le_0_iff)
  then show ?thesis by (simp add: side_polar[OF False])
qed

lemma side_above:
  assumes "(0 \<le> key c p - phi \<and> key c p - phi \<le> pi)
           \<or> (- (2 * pi) \<le> key c p - phi \<and> key c p - phi \<le> - pi)"
  shows "0 \<le> side c (cos phi, sin phi) p"
proof (cases "p = c")
  case True
  then show ?thesis by (simp add: side_central)
next
  case False
  have "0 \<le> radius c p * sin (key c p - phi)"
    using radius_pos[OF False] sin_window_pos[OF assms] by simp
  then show ?thesis by (simp add: side_polar[OF False])
qed

lemma dir_nonzero: "(cos phi, sin phi) \<noteq> (0 :: real, 0 :: real)"
proof
  assume "(cos phi, sin phi) = (0 :: real, 0 :: real)"
  then have "cos phi = 0" "sin phi = 0" by simp_all
  then show False using sin_cos_squared_add[of phi] by simp
qed

lemma angle_separated:
  assumes "- pi \<le> key c a - phi" "key c a - phi \<le> 0"
    and "- pi \<le> key c b - phi" "key c b - phi \<le> 0"
    and "(0 \<le> key c p - phi \<and> key c p - phi \<le> pi)
           \<or> (- (2 * pi) \<le> key c p - phi \<and> key c p - phi \<le> - pi)"
    and "(0 \<le> key c q - phi \<and> key c q - phi \<le> pi)
           \<or> (- (2 * pi) \<le> key c q - phi \<and> key c q - phi \<le> - pi)"
  shows "\<not> segIntersects a b p q"
  by (rule sep_no_cross[OF dir_nonzero side_below[OF assms(1,2)] side_below[OF assms(3,4)]
        side_above[OF assms(5)] side_above[OF assms(6)]])

lemma sorted_keys_mono:
  assumes "sorted (map f w)" "i \<le> j" "j < length w"
  shows "f (w ! i) \<le> f (w ! j)"
proof -
  have "map f w ! i \<le> map f w ! j"
    using assms by (intro sorted_nth_mono) simp_all
  then show ?thesis using assms by simp
qed

text \<open>Two edges of the angle-sorted ring, neither of them the closing edge.\<close>

lemma sorted_inner_edges:
  assumes ne: "v \<noteq> []" and set: "set w = set v"
    and sorted: "sorted (map (key (centroid v)) w)"
    and ij: "Suc i \<le> j" "Suc j < length w"
  shows "\<not> segIntersects (w ! i) (w ! Suc i) (w ! j) (w ! Suc j)"
proof -
  let ?c = "centroid v"
  let ?k = "\<lambda>m. key ?c (w ! m)"
  have g1: "?k (Suc i) - ?k i \<le> pi"
    using ij by (intro gap_le_pi[OF ne set sorted]) simp
  have g2: "?k (Suc j) - ?k j \<le> pi"
    using ij by (intro gap_le_pi[OF ne set sorted]) simp
  have m1: "?k i \<le> ?k (Suc i)" using ij by (intro sorted_keys_mono[OF sorted]) simp_all
  have m2: "?k (Suc i) \<le> ?k j" using ij by (intro sorted_keys_mono[OF sorted]) simp_all
  have m3: "?k j \<le> ?k (Suc j)" using ij by (intro sorted_keys_mono[OF sorted]) simp_all
  have r: "- pi < ?k i" "- pi < ?k (Suc i)" "?k (Suc j) \<le> pi" by (rule key_range)+
  show ?thesis
  proof (cases "?k (Suc j) - pi \<le> ?k (Suc i)")
    case True
    show ?thesis
    proof (rule angle_separated[where c = ?c and phi = "?k (Suc i)"])
      show "- pi \<le> ?k i - ?k (Suc i)" using g1 by argo
      show "?k i - ?k (Suc i) \<le> 0" using m1 by argo
      show "- pi \<le> ?k (Suc i) - ?k (Suc i)" using pi_ge_zero by simp
      show "?k (Suc i) - ?k (Suc i) \<le> 0" by simp
      show "(0 \<le> ?k j - ?k (Suc i) \<and> ?k j - ?k (Suc i) \<le> pi)
           \<or> (- (2 * pi) \<le> ?k j - ?k (Suc i) \<and> ?k j - ?k (Suc i) \<le> - pi)"
        using m2 m3 True by argo
      show "(0 \<le> ?k (Suc j) - ?k (Suc i) \<and> ?k (Suc j) - ?k (Suc i) \<le> pi)
           \<or> (- (2 * pi) \<le> ?k (Suc j) - ?k (Suc i) \<and> ?k (Suc j) - ?k (Suc i) \<le> - pi)"
        using m2 m3 True by argo
    qed
  next
    case False
    then have F: "?k (Suc i) < ?k (Suc j) - pi" by simp
    show ?thesis
    proof (rule angle_separated[where c = ?c and phi = "?k (Suc j) - pi"])
      show "- pi \<le> ?k i - (?k (Suc j) - pi)" using r by argo
      show "?k i - (?k (Suc j) - pi) \<le> 0" using m1 F by argo
      show "- pi \<le> ?k (Suc i) - (?k (Suc j) - pi)" using r by argo
      show "?k (Suc i) - (?k (Suc j) - pi) \<le> 0" using F by argo
      show "(0 \<le> ?k j - (?k (Suc j) - pi) \<and> ?k j - (?k (Suc j) - pi) \<le> pi)
           \<or> (- (2 * pi) \<le> ?k j - (?k (Suc j) - pi) \<and> ?k j - (?k (Suc j) - pi) \<le> - pi)"
        using g2 m3 by argo
      show "(0 \<le> ?k (Suc j) - (?k (Suc j) - pi) \<and> ?k (Suc j) - (?k (Suc j) - pi) \<le> pi)
           \<or> (- (2 * pi) \<le> ?k (Suc j) - (?k (Suc j) - pi)
               \<and> ?k (Suc j) - (?k (Suc j) - pi) \<le> - pi)"
        using pi_ge_zero by simp
    qed
  qed
qed

text \<open>An inner edge and the closing edge.\<close>

lemma sorted_closing_edge:
  assumes ne: "v \<noteq> []" and set: "set w = set v"
    and sorted: "sorted (map (key (centroid v)) w)"
    and i: "Suc i < length w"
  shows "\<not> segIntersects (w ! i) (w ! Suc i) (last w) (hd w)"
proof (cases "\<exists>p \<in> set v. p \<noteq> centroid v")
  case False
  then have all: "\<And>p. p \<in> set w \<Longrightarrow> p = centroid v" using set by blast
  have "w ! i = centroid v" "w ! Suc i = centroid v" using i by (intro all nth_mem; simp)+
  then have "orient (w ! i) (w ! Suc i) (last w) = 0" by (simp add: orient_def)
  then show ?thesis by (simp add: segIntersects_def Let_def)
next
  case True
  let ?c = "centroid v"
  let ?k = "\<lambda>m. key ?c (w ! m)"
  have wne: "w \<noteq> []" using i by auto
  have hd: "hd w = w ! 0" using wne by (simp add: hd_conv_nth)
  have last: "last w = w ! (length w - 1)" using wne by (simp add: last_conv_nth)
  have sp: "pi \<le> key ?c (last w) - key ?c (hd w)"
    by (rule spread_ge_pi[OF ne set sorted True])
  have g1: "?k (Suc i) - ?k i \<le> pi"
    using i by (intro gap_le_pi[OF ne set sorted])
  have m0: "key ?c (hd w) \<le> ?k i" unfolding hd
    using i by (intro sorted_keys_mono[OF sorted]) simp_all
  have m1: "?k i \<le> ?k (Suc i)" using i by (intro sorted_keys_mono[OF sorted]) simp_all
  have m2: "?k (Suc i) \<le> key ?c (last w)" unfolding last
    using i by (intro sorted_keys_mono[OF sorted]) simp_all
  have r: "- pi < key ?c (hd w)" "key ?c (last w) \<le> pi" by (rule key_range)+
  show ?thesis
  proof (cases "key ?c (hd w) + pi \<le> ?k (Suc i)")
    case T: True
    show ?thesis
    proof (rule angle_separated[where c = ?c and phi = "?k (Suc i)"])
      show "- pi \<le> ?k i - ?k (Suc i)" using g1 by argo
      show "?k i - ?k (Suc i) \<le> 0" using m1 by argo
      show "- pi \<le> ?k (Suc i) - ?k (Suc i)" using pi_ge_zero by simp
      show "?k (Suc i) - ?k (Suc i) \<le> 0" by simp
      show "(0 \<le> key ?c (last w) - ?k (Suc i) \<and> key ?c (last w) - ?k (Suc i) \<le> pi)
           \<or> (- (2 * pi) \<le> key ?c (last w) - ?k (Suc i)
               \<and> key ?c (last w) - ?k (Suc i) \<le> - pi)"
        using m2 r T by argo
      show "(0 \<le> key ?c (hd w) - ?k (Suc i) \<and> key ?c (hd w) - ?k (Suc i) \<le> pi)
           \<or> (- (2 * pi) \<le> key ?c (hd w) - ?k (Suc i)
               \<and> key ?c (hd w) - ?k (Suc i) \<le> - pi)"
        using m2 r T by argo
    qed
  next
    case False
    then have F: "?k (Suc i) < key ?c (hd w) + pi" by simp
    show ?thesis
    proof (rule angle_separated[where c = ?c and phi = "key ?c (hd w) + pi"])
      show "- pi \<le> ?k i - (key ?c (hd w) + pi)" using m0 by argo
      show "?k i - (key ?c (hd w) + pi) \<le> 0" using m1 F by argo
      show "- pi \<le> ?k (Suc i) - (key ?c (hd w) + pi)" using m0 m1 by argo
      show "?k (Suc i) - (key ?c (hd w) + pi) \<le> 0" using F by argo
      show "(0 \<le> key ?c (last w) - (key ?c (hd w) + pi)
               \<and> key ?c (last w) - (key ?c (hd w) + pi) \<le> pi)
           \<or> (- (2 * pi) \<le> key ?c (last w) - (key ?c (hd w) + pi)
               \<and> key ?c (last w) - (key ?c (hd w) + pi) \<le> - pi)"
        using sp r by argo
      show "(0 \<le> key ?c (hd w) - (key ?c (hd w) + pi)
               \<and> key ?c (hd w) - (key ?c (hd w) + pi) \<le> pi)
           \<or> (- (2 * pi) \<le> key ?c (hd w) - (key ?c (hd w) + pi)
               \<and> key ?c (hd w) - (key ?c (hd w) + pi) \<le> - pi)"
        using pi_ge_zero by simp
    qed
  qed
qed

lemma ring_edge_inner: "Suc i < length v \<Longrightarrow> ring_edge v i = (v ! i, v ! Suc i)"
  by (simp add: ring_edge_def)

lemma ring_edge_closing: "v \<noteq> [] \<Longrightarrow> ring_edge v (length v - 1) = (last v, hd v)"
  by (simp add: ring_edge_def last_conv_nth hd_conv_nth)

lemma sorted_pair_ordered:
  assumes ne: "v \<noteq> []" and set: "set w = set v"
    and sorted: "sorted (map (key (centroid v)) w)"
    and ij: "i < j" "j < length w"
  shows "\<not> segIntersects (fst (ring_edge w i)) (snd (ring_edge w i))
                         (fst (ring_edge w j)) (snd (ring_edge w j))"
proof -
  have wne: "w \<noteq> []" using ij by auto
  have ei: "ring_edge w i = (w ! i, w ! Suc i)" using ij by (intro ring_edge_inner) simp
  show ?thesis
  proof (cases "Suc j < length w")
    case True
    then have ej: "ring_edge w j = (w ! j, w ! Suc j)" by (rule ring_edge_inner)
    show ?thesis unfolding ei ej fst_conv snd_conv
      using ij True by (intro sorted_inner_edges[OF ne set sorted]) simp_all
  next
    case False
    then have j: "j = length w - 1" using ij by simp
    have ej: "ring_edge w j = (last w, hd w)" unfolding j by (rule ring_edge_closing[OF wne])
    show ?thesis unfolding ei ej fst_conv snd_conv
      using ij j by (intro sorted_closing_edge[OF ne set sorted]) simp
  qed
qed

lemma ring_edge_adjacent:
  "\<not> segIntersects (fst (ring_edge w i)) (snd (ring_edge w i))
                    (fst (ring_edge w i)) (snd (ring_edge w i))"
  by (simp add: segIntersects_def Let_def orient_same1)

lemma sorted_crossing_free:
  assumes ne: "v \<noteq> []" and set: "set w = set v"
    and sorted: "sorted (map (key (centroid v)) w)"
  shows "crossing_free w"
  unfolding crossing_free_def
proof (intro allI impI)
  fix i j assume i: "i < length w" and j: "j < length w"
  consider (lt) "i < j" | (eq) "i = j" | (gt) "j < i" by linarith
  then show "\<not> segIntersects (fst (ring_edge w i)) (snd (ring_edge w i))
                             (fst (ring_edge w j)) (snd (ring_edge w j))"
  proof cases
    case lt
    then show ?thesis using j by (intro sorted_pair_ordered[OF ne set sorted])
  next
    case eq
    then show ?thesis by (simp add: ring_edge_adjacent)
  next
    case gt
    then have "\<not> segIntersects (fst (ring_edge w j)) (snd (ring_edge w j))
                               (fst (ring_edge w i)) (snd (ring_edge w i))"
      using i by (intro sorted_pair_ordered[OF ne set sorted])
    then show ?thesis by (subst segIntersects_sym)
  qed
qed

lemma ring_edge_rev:
  assumes "i < length v"
  shows "\<exists>k < length v. ring_edge (rev v) i = (snd (ring_edge v k), fst (ring_edge v k))"
proof (cases "Suc i < length v")
  case True
  let ?k = "length v - 2 - i"
  have k: "Suc ?k < length v" "Suc ?k = length v - 1 - i" using True by simp_all
  have "ring_edge (rev v) i = (rev v ! i, rev v ! Suc i)"
    using True by (simp add: ring_edge_def)
  also have "rev v ! i = v ! Suc ?k" using assms k by (simp add: rev_nth)
  also have "rev v ! Suc i = v ! ?k" using True by (simp add: rev_nth)
  finally have "ring_edge (rev v) i = (snd (ring_edge v ?k), fst (ring_edge v ?k))"
    using k(1) by (simp add: ring_edge_inner)
  moreover have "?k < length v" using k(1) by simp
  ultimately show ?thesis by blast
next
  case False
  then have i: "i = length v - 1" using assms by simp
  have ne: "v \<noteq> []" using assms by auto
  have c: "ring_edge v (length v - 1) = (last v, hd v)" by (rule ring_edge_closing[OF ne])
  have "rev v \<noteq> []" using ne by simp
  then have "ring_edge (rev v) (length (rev v) - 1) = (last (rev v), hd (rev v))"
    by (rule ring_edge_closing)
  then have "ring_edge (rev v) i = (last (rev v), hd (rev v))" using i by simp
  also have "\<dots> = (hd v, last v)" using ne by (simp add: last_rev hd_rev)
  finally have "ring_edge (rev v) i
                  = (snd (ring_edge v (length v - 1)), fst (ring_edge v (length v - 1)))"
    unfolding c by simp
  moreover have "length v - 1 < length v" using assms by simp
  ultimately show ?thesis by blast
qed

lemma crossing_free_rev:
  assumes "crossing_free v"
  shows "crossing_free (rev v)"
  unfolding crossing_free_def
proof (intro allI impI)
  fix i j assume "i < length (rev v)" "j < length (rev v)"
  then have ij: "i < length v" "j < length v" by simp_all
  from ring_edge_rev[OF ij(1)] obtain k where
    k: "k < length v" "ring_edge (rev v) i = (snd (ring_edge v k), fst (ring_edge v k))"
    by blast
  from ring_edge_rev[OF ij(2)] obtain l where
    l: "l < length v" "ring_edge (rev v) j = (snd (ring_edge v l), fst (ring_edge v l))"
    by blast
  have "\<not> segIntersects (fst (ring_edge v k)) (snd (ring_edge v k))
                          (fst (ring_edge v l)) (snd (ring_edge v l))"
    using assms k(1) l(1) unfolding crossing_free_def by blast
  then show "\<not> segIntersects (fst (ring_edge (rev v) i)) (snd (ring_edge (rev v) i))
                             (fst (ring_edge (rev v) j)) (snd (ring_edge (rev v) j))"
    unfolding k(2) l(2) fst_conv snd_conv by (subst segIntersects_flip)
qed

lemma crossing_free_enforceCCW: "crossing_free v \<Longrightarrow> crossing_free (enforceCCW v)"
  by (simp add: enforceCCW_def crossing_free_rev)

lemma crossing_free_test:
  assumes "crossing_free v"
  shows "\<not> isSelfIntersecting v"
proof
  assume "isSelfIntersecting v"
  then have "\<exists>i \<in> set [0..<length v]. \<exists>j \<in> set [i + 1..<length v].
      segIntersects (v ! i) (v ! ((i + 1) mod length v)) (v ! j) (v ! ((j + 1) mod length v))"
    unfolding isSelfIntersecting_def Let_def list_ex_iff by (meson)
  then obtain i j where ij: "i \<in> set [0..<length v]" "j \<in> set [i + 1..<length v]"
      and x: "segIntersects (v ! i) (v ! ((i + 1) mod length v))
                (v ! j) (v ! ((j + 1) mod length v))"
    by blast
  from ij have "i < length v" "j < length v" by simp_all
  with x show False using assms unfolding crossing_free_def ring_edge_def fst_conv snd_conv
    by blast
qed

lemma angle_key: "(\<lambda>a. atan2 (snd a - snd c) (fst a - fst c)) = key c"
  by (rule ext) (simp add: key_def)

lemma angle_sort_crossing_free:
  assumes "v \<noteq> []"
  shows "crossing_free (sort_key (\<lambda>a. atan2 (snd a - snd (centroid v)) (fst a - fst (centroid v))) v)"
  unfolding angle_key
  by (rule sorted_crossing_free[OF assms]) (simp_all add: sorted_sort_key)


subsection \<open>The general shape\<close>

lemma toShape_empty:
  assumes "length (getCleanVertices (1 / 100000) (vertices p)) < 3"
  shows "toShape p = []"
  using assms by (simp add: toShape_def)

lemma toShape_direct:
  assumes "3 \<le> length (getCleanVertices (1 / 100000) (vertices p))"
    and "\<not> isSelfIntersecting (enforceCCW (getCleanVertices (1 / 100000) (vertices p)))"
  shows "toShape p = enforceCCW (getCleanVertices (1 / 100000) (vertices p))
                       @ [hd (enforceCCW (getCleanVertices (1 / 100000) (vertices p)))]"
  using assms by (simp add: toShape_def Let_def)

lemma toShape_ring:
  assumes "3 \<le> length (getCleanVertices (1 / 100000) (vertices p))"
  shows "\<exists>v. toShape p = v @ [hd v]
            \<and> length v = length (getCleanVertices (1 / 100000) (vertices p))
            \<and> set v = set (getCleanVertices (1 / 100000) (vertices p))
            \<and> 0 \<le> signedArea v"
proof (cases "isSelfIntersecting (enforceCCW (getCleanVertices (1 / 100000) (vertices p)))")
  case False
  show ?thesis
    by (rule exI[of _ "enforceCCW (getCleanVertices (1 / 100000) (vertices p))"])
       (simp add: toShape_direct[OF assms False] enforceCCW_same enforceCCW_nonneg)
next
  case True
  let ?v0 = "enforceCCW (getCleanVertices (1 / 100000) (vertices p))"
  let ?key = "\<lambda>a. atan2 (snd a - snd (centroid ?v0)) (fst a - fst (centroid ?v0))"
  let ?v = "enforceCCW (sort_key ?key ?v0)"
  have "toShape p = ?v @ [hd ?v]"
    using assms True by (simp add: toShape_def Let_def)
  moreover have "length ?v = length (getCleanVertices (1 / 100000) (vertices p))"
    by (simp add: enforceCCW_same)
  moreover have "set ?v = set (getCleanVertices (1 / 100000) (vertices p))"
    by (simp add: enforceCCW_same)
  moreover have "0 \<le> signedArea ?v" by (rule enforceCCW_nonneg)
  ultimately show ?thesis by blast
qed

lemma toShape_no_crossing: "\<not> isSelfIntersecting (shape_ring (toShape p))"
proof (cases "length (getCleanVertices (1 / 100000) (vertices p)) < 3")
  case True
  then show ?thesis by (simp add: toShape_def shape_ring_def isSelfIntersecting_def)
next
  case False
  then have three: "3 \<le> length (getCleanVertices (1 / 100000) (vertices p))" by simp
  let ?base = "enforceCCW (getCleanVertices (1 / 100000) (vertices p))"
  show ?thesis
  proof (cases "isSelfIntersecting ?base")
    case ok: False
    then show ?thesis by (simp add: shape_ring_def toShape_direct[OF three ok])
  next
    case True
    let ?key = "\<lambda>a. atan2 (snd a - snd (centroid ?base)) (fst a - fst (centroid ?base))"
    let ?v = "enforceCCW (sort_key ?key ?base)"
    have "toShape p = ?v @ [hd ?v]"
      using three True by (simp add: toShape_def Let_def)
    then have ring: "shape_ring (toShape p) = ?v" by (simp add: shape_ring_def)
    have "length ?base = length (getCleanVertices (1 / 100000) (vertices p))"
      by (rule enforceCCW_same(2))
    then have ne: "?base \<noteq> []" using three by auto
    have "crossing_free ?v"
      by (rule crossing_free_enforceCCW[OF angle_sort_crossing_free[OF ne]])
    then show ?thesis unfolding ring by (rule crossing_free_test)
  qed
qed

subsection \<open>Quadrilaterals\<close>

lemma signedArea_quad:
  "signedArea [a, b, c, d] = 0.5 * (orient a b c + orient c d a)"
  by (simp add: signedArea_def upt4 orient_def algebra_simps)

lemma isSelfIntersecting_quad:
  "isSelfIntersecting [a, b, c, d] \<longleftrightarrow> segIntersects a b c d \<or> segIntersects b c d a"
  by (simp add: isSelfIntersecting_def upt_rec)

lemma clean_quad:
  assumes "e \<ge> 0"
    and "hypot (fst b - fst a) (snd b - snd a) > e"
    and "hypot (fst c - fst b) (snd c - snd b) > e"
    and "hypot (fst d - fst c) (snd d - snd c) > e"
    and "hypot (fst a - fst d) (snd a - snd d) > e"
    and "\<bar>cross3 d a b\<bar> > e" "\<bar>cross3 a b c\<bar> > e" "\<bar>cross3 b c d\<bar> > e" "\<bar>cross3 c d a\<bar> > e"
  shows "getCleanVertices e [a, b, c, d] = [a, b, c, d]"
  using assms by (simp add: getCleanVertices_def dedupStep_def Let_def upt4)

lemma ccw_quad_not_intersecting:
  assumes "0 < orient a b c" "0 < orient b c d" "0 < orient c d a" "0 < orient d a b"
  shows "\<not> isSelfIntersecting [a, b, c, d]"
proof -
  have o2: "orient a b d = orient d a b" by (rule orient_cycle)
  have "0 < orient a b c * orient a b d" using assms(1,4) o2 by simp
  then have s1: "\<not> segIntersects a b c d" by (simp add: segIntersects_def Let_def)
  have o3: "orient b c a = orient a b c" by (rule orient_cycle)
  have "0 < orient b c d * orient b c a" using assms(1,2) o3 by simp
  then have s2: "\<not> segIntersects b c d a" by (simp add: segIntersects_def Let_def)
  from s1 s2 show ?thesis by (simp add: isSelfIntersecting_quad)
qed

lemma cw_quad_toShape:
  assumes v: "vertices p = [a, b, c, d]"
    and dist: "1 / 100000 < hypot (fst b - fst a) (snd b - snd a)"
      "1 / 100000 < hypot (fst c - fst b) (snd c - snd b)"
      "1 / 100000 < hypot (fst d - fst c) (snd d - snd c)"
      "1 / 100000 < hypot (fst a - fst d) (snd a - snd d)"
    and turn: "cross3 d a b < - (1 / 100000)" "cross3 a b c < - (1 / 100000)"
      "cross3 b c d < - (1 / 100000)" "cross3 c d a < - (1 / 100000)"
  shows "toShape p = [d, c, b, a, d]"
    and "0 < signedArea [d, c, b, a]"
    and "\<not> isSelfIntersecting [d, c, b, a]"
proof -
  have e0: "(0::real) \<le> 1 / 100000" by simp
  have clean: "getCleanVertices (1 / 100000) (vertices p) = [a, b, c, d]"
    unfolding v using e0 dist turn by (intro clean_quad) simp_all
  have neg: "orient a b c < 0" "orient b c d < 0" "orient c d a < 0" "orient d a b < 0"
    using turn by (simp_all add: cross3_orient)
  have area: "signedArea [a, b, c, d] < 0"
    using neg by (simp add: signedArea_quad)
  then have ccw: "enforceCCW [a, b, c, d] = [d, c, b, a]" by (simp add: enforceCCW_def)
  have pos: "0 < orient d c b" "0 < orient c b a" "0 < orient b a d" "0 < orient a d c"
    using neg by (simp_all add: orient_swap[of b c d] orient_swap[of a b c]
        orient_swap[of d a b] orient_swap[of c d a])
  show ni: "\<not> isSelfIntersecting [d, c, b, a]"
    by (rule ccw_quad_not_intersecting[OF pos])
  show "toShape p = [d, c, b, a, d]"
    using toShape_direct[of p] ni by (simp add: clean ccw)
  have "signedArea (rev [a, b, c, d]) = - signedArea [a, b, c, d]" by (rule signedArea_rev)
  then show "0 < signedArea [d, c, b, a]" using area by simp
qed

text \<open>
  Claim C2, as the code has it.  When fewer than three vertices survive the cleaning
  (consecutive vertices within \<open>1e-5\<close>, corners with cross product within \<open>1e-5\<close>),
  \<open>toShape()\<close> returns the empty shape.  Otherwise it returns a closed path over the
  cleaned vertices, in an order of non-negative signed area (counter-clockwise); when
  the self-intersection test finds no crossing in the cleaned, counter-clockwise ring,
  that ring is the result.  In every case the self-intersection test reports no
  intersection on the returned ring: the fallback ordering by angle about the centroid
  never has two properly crossing edges.  In
  particular, for a quadrilateral given clockwise whose consecutive vertices are more
  than \<open>1e-5\<close> apart and whose four corners turn clockwise with cross products beyond
  \<open>1e-5\<close> (hence simple and convex), the shape has exactly the four vertices in the
  reverse, counter-clockwise order and the test reports no intersection on it.
\<close>

theorem toShape_ccw_ring:
  "(length (getCleanVertices (1 / 100000) (vertices p)) < 3 \<longrightarrow> toShape p = [])
   \<and> (3 \<le> length (getCleanVertices (1 / 100000) (vertices p)) \<longrightarrow>
        toShape p = shape_ring (toShape p) @ [hd (shape_ring (toShape p))]
      \<and> length (shape_ring (toShape p)) = length (getCleanVertices (1 / 100000) (vertices p))
      \<and> set (shape_ring (toShape p)) = set (getCleanVertices (1 / 100000) (vertices p))
      \<and> 0 \<le> signedArea (shape_ring (toShape p))
      \<and> (\<not> isSelfIntersecting (enforceCCW (getCleanVertices (1 / 100000) (vertices p))) \<longrightarrow>
            shape_ring (toShape p) = enforceCCW (getCleanVertices (1 / 100000) (vertices p))))
   \<and> \<not> isSelfIntersecting (shape_ring (toShape p))
   \<and> (vertices p = [a, b, c, d]
      \<and> 1 / 100000 < hypot (fst b - fst a) (snd b - snd a)
      \<and> 1 / 100000 < hypot (fst c - fst b) (snd c - snd b)
      \<and> 1 / 100000 < hypot (fst d - fst c) (snd d - snd c)
      \<and> 1 / 100000 < hypot (fst a - fst d) (snd a - snd d)
      \<and> cross3 d a b < - (1 / 100000) \<and> cross3 a b c < - (1 / 100000)
      \<and> cross3 b c d < - (1 / 100000) \<and> cross3 c d a < - (1 / 100000) \<longrightarrow>
        toShape p = [d, c, b, a, d]
      \<and> shape_ring (toShape p) = [d, c, b, a]
      \<and> set (shape_ring (toShape p)) = {a, b, c, d}
      \<and> 0 < signedArea (shape_ring (toShape p))
      \<and> \<not> isSelfIntersecting (shape_ring (toShape p)))"
proof (intro conjI impI)
  assume "length (getCleanVertices (1 / 100000) (vertices p)) < 3"
  then show "toShape p = []" by (rule toShape_empty)
next
  assume three: "3 \<le> length (getCleanVertices (1 / 100000) (vertices p))"
  from toShape_ring[OF three] obtain v where
    v: "toShape p = v @ [hd v]"
    "length v = length (getCleanVertices (1 / 100000) (vertices p))"
    "set v = set (getCleanVertices (1 / 100000) (vertices p))"
    "0 \<le> signedArea v"
    by blast
  have ring: "shape_ring (toShape p) = v" by (simp add: shape_ring_def v(1))
  show "toShape p = shape_ring (toShape p) @ [hd (shape_ring (toShape p))]"
    unfolding ring by (rule v(1))
  show "length (shape_ring (toShape p)) = length (getCleanVertices (1 / 100000) (vertices p))"
    unfolding ring by (rule v(2))
  show "set (shape_ring (toShape p)) = set (getCleanVertices (1 / 100000) (vertices p))"
    unfolding ring by (rule v(3))
  show "0 \<le> signedArea (shape_ring (toShape p))"
    unfolding ring by (rule v(4))
  assume ok: "\<not> isSelfIntersecting (enforceCCW (getCleanVertices (1 / 100000) (vertices p)))"
  show "shape_ring (toShape p) = enforceCCW (getCleanVertices (1 / 100000) (vertices p))"
    by (simp add: shape_ring_def toShape_direct[OF three ok])
next
  show "\<not> isSelfIntersecting (shape_ring (toShape p))"
    by (rule toShape_no_crossing)
next
  assume q: "vertices p = [a, b, c, d]
      \<and> 1 / 100000 < hypot (fst b - fst a) (snd b - snd a)
      \<and> 1 / 100000 < hypot (fst c - fst b) (snd c - snd b)
      \<and> 1 / 100000 < hypot (fst d - fst c) (snd d - snd c)
      \<and> 1 / 100000 < hypot (fst a - fst d) (snd a - snd d)
      \<and> cross3 d a b < - (1 / 100000) \<and> cross3 a b c < - (1 / 100000)
      \<and> cross3 b c d < - (1 / 100000) \<and> cross3 c d a < - (1 / 100000)"
  then have r: "toShape p = [d, c, b, a, d]" "0 < signedArea [d, c, b, a]"
    "\<not> isSelfIntersecting [d, c, b, a]"
    using cw_quad_toShape[of p a b c d] by blast+
  have ring: "shape_ring (toShape p) = [d, c, b, a]" by (simp add: shape_ring_def r(1))
  show "toShape p = [d, c, b, a, d]" by (rule r(1))
  show "shape_ring (toShape p) = [d, c, b, a]" by (rule ring)
  show "set (shape_ring (toShape p)) = {a, b, c, d}" unfolding ring by auto
  show "0 < signedArea (shape_ring (toShape p))" unfolding ring by (rule r(2))
  show "\<not> isSelfIntersecting (shape_ring (toShape p))" unfolding ring by (rule r(3))
qed

theorem toShape_ccw_ring_witness:
  "vertices cw_square = [(0, 0), (0, 1), (1, 1), (1, 0)]
   \<and> 1 / 100000 < hypot (0 - 0) (1 - 0)
   \<and> 1 / 100000 < hypot (1 - 0) (1 - 1)
   \<and> 1 / 100000 < hypot (1 - 1) (0 - 1)
   \<and> 1 / 100000 < hypot (0 - 1) (0 - 0)
   \<and> cross3 (1, 0) (0, 0) (0, 1) = - 1
   \<and> cross3 (0, 0) (0, 1) (1, 1) = - 1
   \<and> cross3 (0, 1) (1, 1) (1, 0) = - 1
   \<and> cross3 (1, 1) (1, 0) (0, 0) = - 1
   \<and> toShape cw_square = [(1, 0), (1, 1), (0, 1), (0, 0), (1, 0)]
   \<and> 0 < signedArea (shape_ring (toShape cw_square))
   \<and> \<not> isSelfIntersecting (shape_ring (toShape cw_square))
   \<and> 3 \<le> length (getCleanVertices (1 / 100000) (vertices cw_square))"
proof -
  have v: "vertices cw_square = [(0, 0), (0, 1), (1, 1), (1, 0)]"
    by (simp add: cw_square_def new_polygon_def)
  have d: "1 / 100000 < hypot (0 - 0) (1 - 0)" "1 / 100000 < hypot (1 - 0) (1 - 1)"
    "1 / 100000 < hypot (1 - 1) (0 - 1)" "1 / 100000 < hypot (0 - 1) (0 - 0)"
    by (simp_all add: hypot_eps_gt)
  have c: "cross3 (1, 0) (0, 0) (0, 1) = - 1" "cross3 (0, 0) (0, 1) (1, 1) = - 1"
    "cross3 (0, 1) (1, 1) (1, 0) = - 1" "cross3 (1, 1) (1, 0) (0, 0) = - 1"
    by (simp_all add: cross3_def)
  have q: "vertices cw_square = [(0, 0), (0, 1), (1, 1), (1, 0)]
      \<and> 1 / 100000 < hypot (fst (0, 1) - fst (0 :: real, 0 :: real)) (snd (0 :: real, 1 :: real) - snd (0 :: real, 0 :: real))
      \<and> 1 / 100000 < hypot (fst (1, 1) - fst (0 :: real, 1 :: real)) (snd (1 :: real, 1 :: real) - snd (0 :: real, 1 :: real))
      \<and> 1 / 100000 < hypot (fst (1, 0) - fst (1 :: real, 1 :: real)) (snd (1 :: real, 0 :: real) - snd (1 :: real, 1 :: real))
      \<and> 1 / 100000 < hypot (fst (0, 0) - fst (1 :: real, 0 :: real)) (snd (0 :: real, 0 :: real) - snd (1 :: real, 0 :: real))
      \<and> cross3 (1, 0) (0, 0) (0, 1) < - (1 / 100000)
      \<and> cross3 (0, 0) (0, 1) (1, 1) < - (1 / 100000)
      \<and> cross3 (0, 1) (1, 1) (1, 0) < - (1 / 100000)
      \<and> cross3 (1, 1) (1, 0) (0, 0) < - (1 / 100000)"
    using v d by (simp add: c)
  note t = toShape_ccw_ring[of cw_square "(0, 0)" "(0, 1)" "(1, 1)" "(1, 0)"]
  from t q have r: "toShape cw_square = [(1, 0), (1, 1), (0, 1), (0, 0), (1, 0)]"
    "0 < signedArea (shape_ring (toShape cw_square))"
    "\<not> isSelfIntersecting (shape_ring (toShape cw_square))"
    by blast+
  have l: "3 \<le> length (getCleanVertices (1 / 100000) (vertices cw_square))"
  proof (rule ccontr)
    assume "\<not> 3 \<le> length (getCleanVertices (1 / 100000) (vertices cw_square))"
    then have "length (getCleanVertices (1 / 100000) (vertices cw_square)) < 3" by simp
    with t have "toShape cw_square = []" by blast
    with r(1) show False by simp
  qed
  from v d c r l show ?thesis by blast
qed

text \<open>
  The claim as stated fails on convex clockwise quadrilaterals that the cleaning does
  not leave intact.  The quadrilateral with sides of one micrometre collapses to a single
  vertex and yields the empty shape; the quadrilateral with the almost flat corner
  \<open>(1, 0)\<close> (cross product \<open>-1e-6\<close>) loses that corner and yields a triangle.
\<close>

theorem toShape_quad_counterexample:
  "vertices tiny_quad = [(0, 0), (0, 1 / 1000000), (1 / 1000000, 1 / 1000000), (1 / 1000000, 0)]
   \<and> cross3 (1 / 1000000, 0) (0, 0) (0, 1 / 1000000) < 0
   \<and> cross3 (0, 0) (0, 1 / 1000000) (1 / 1000000, 1 / 1000000) < 0
   \<and> cross3 (0, 1 / 1000000) (1 / 1000000, 1 / 1000000) (1 / 1000000, 0) < 0
   \<and> cross3 (1 / 1000000, 1 / 1000000) (1 / 1000000, 0) (0, 0) < 0
   \<and> toShape tiny_quad = []
   \<and> vertices flat_quad = [(0, 1), (2, 1 / 1000000), (1, 0), (0, 0)]
   \<and> cross3 (0, 0) (0, 1) (2, 1 / 1000000) < 0
   \<and> cross3 (0, 1) (2, 1 / 1000000) (1, 0) < 0
   \<and> cross3 (2, 1 / 1000000) (1, 0) (0, 0) < 0
   \<and> cross3 (1, 0) (0, 0) (0, 1) < 0
   \<and> toShape flat_quad = [(0, 0), (2, 1 / 1000000), (0, 1), (0, 0)]
   \<and> (1, 0) \<notin> set (toShape flat_quad)"
proof -
  have t: "toShape tiny_quad = []"
    by (simp add: toShape_def tiny_quad_def new_polygon_def getCleanVertices_def dedupStep_def
        hypot_eps_gt hypot_eps_le)
  have cf: "getCleanVertices (1 / 100000) (vertices flat_quad) = [(0, 1), (2, 1 / 1000000), (0, 0)]"
    by (simp add: flat_quad_def new_polygon_def getCleanVertices_def dedupStep_def upt4
        hypot_eps_gt hypot_eps_le cross3_def)
  have af: "signedArea [(0, 1), (2, 1 / 1000000), (0 :: real, 0 :: real)] < 0"
    by (simp add: signedArea_def upt_rec)
  have f: "toShape flat_quad = [(0, 0), (2, 1 / 1000000), (0, 1), (0, 0)]"
    by (simp add: toShape_def cf Let_def enforceCCW_def af isSelfIntersecting_def)
  show ?thesis
    unfolding t f
    by (simp add: tiny_quad_def flat_quad_def new_polygon_def cross3_def)
qed


end
